theory Spec2Isabelle
  imports Complex_Main "HOL-Library.AList"
begin

section \<open>Python values and errors\<close>

text \<open>
  Python floats are modelled as mathematical reals (no rounding, no overflow, no NaN) and
  Python ints as \<open>int\<close>. Every exception the modelled code can raise is a value of
  \<open>py_error\<close>; a fallible function returns \<open>py_error + 'a\<close> with \<open>Inl\<close> the
  exception.
\<close>

datatype py_error =
    IndexError
  | KeyError
  | ValueError
  | ZeroDivisionError
  | SizeMismatch
  | CasadiIndexOutOfBounds

definition ebind :: "'e + 'a \<Rightarrow> ('a \<Rightarrow> 'e + 'b) \<Rightarrow> 'e + 'b" where
  "ebind m f = (case m of Inl e \<Rightarrow> Inl e | Inr a \<Rightarrow> f a)"

definition py_div :: "real \<Rightarrow> real \<Rightarrow> py_error + real" where
  "py_div a b = (if b = 0 then Inl ZeroDivisionError else Inr (a / b))"

section \<open>Configuration (class C of my\_hybrid\_astar.py)\<close>

definition XY_RESO :: real where "XY_RESO = 0.2"
definition MOVE_STEP :: real where "MOVE_STEP = 0.2"
definition COLLISION_CHECK_STEP :: nat where "COLLISION_CHECK_STEP = 2"
definition GEAR_COST :: real where "GEAR_COST = 100.0"
definition BACKWARD_COST :: real where "BACKWARD_COST = 50.0"
definition ANGULAR_VELOCITY_CHANGE_COST :: real where "ANGULAR_VELOCITY_CHANGE_COST = 2.0"
definition H_COST :: real where "H_COST = 10.0"
definition RF :: real where "RF = 0.6"
definition RB :: real where "RB = 0.2"
definition W :: real where "W = 0.6"

section \<open>Reeds-Shepp path cost\<close>

text \<open>
  An RSPath as delivered by the external Reeds-Shepp module: sample lists and the signed
  lengths of the primitive segments.
\<close>

record rspath =
  rs_x :: "real list"
  rs_y :: "real list"
  rs_yaw :: "real list"
  rs_directions :: "int list"
  rs_lengths :: "real list"

text \<open>First loop of \<open>calc_rs_path_cost\<close> ("Distance cost"), accumulator \<open>cost\<close>.\<close>

fun rs_distance_cost :: "real list \<Rightarrow> real \<Rightarrow> real" where
  "rs_distance_cost [] cost = cost"
| "rs_distance_cost (lr # ls) cost =
     rs_distance_cost ls (if lr \<ge> 0 then cost + 1 else cost + \<bar>lr\<bar> * BACKWARD_COST)"

text \<open>Second loop ("Direction change cost"): \<open>lengths[i] * lengths[i + 1] < 0.0\<close>
  for \<open>i\<close> in \<open>range(len(lengths) - 1)\<close>.\<close>

fun rs_direction_change_cost :: "real list \<Rightarrow> real \<Rightarrow> real" where
  "rs_direction_change_cost (a # b # ls) cost =
     rs_direction_change_cost (b # ls) (if a * b < 0 then cost + GEAR_COST else cost)"
| "rs_direction_change_cost ls cost = cost"

definition calc_rs_path_cost :: "rspath \<Rightarrow> real" where
  "calc_rs_path_cost rspath =
     rs_direction_change_cost (rs_lengths rspath) (rs_distance_cost (rs_lengths rspath) 0)"

text \<open>The cost as the specification words it: every segment contributes its absolute
  length, times \<open>BACKWARD_COST\<close> when negative, and every consecutive pair of opposite
  sign contributes \<open>GEAR_COST\<close>.\<close>

fun rs_cost_spec_gear :: "real list \<Rightarrow> real" where
  "rs_cost_spec_gear (a # b # ls) =
     (if (a < 0 \<and> 0 < b) \<or> (0 < a \<and> b < 0) then GEAR_COST else 0) + rs_cost_spec_gear (b # ls)"
| "rs_cost_spec_gear ls = 0"

definition rs_cost_spec :: "real list \<Rightarrow> real" where
  "rs_cost_spec ls =
     (\<Sum>l\<leftarrow>ls. if l \<ge> 0 then \<bar>l\<bar> else \<bar>l\<bar> * BACKWARD_COST) + rs_cost_spec_gear ls"

section \<open>Tractor-trailer model\<close>

text \<open>
  A numeric CasADi matrix (DM): its two dimensions and its entries in column-major order.
  Symbolic SX matrices are not modelled.
\<close>

record dm =
  size1 :: nat
  size2 :: nat
  elems :: "real list"

definition dm_size :: "dm \<Rightarrow> int \<times> int" where
  "dm_size a = (int (size1 a), int (size2 a))"

definition column :: "real list \<Rightarrow> dm" where
  "column xs = \<lparr>size1 = length xs, size2 = 1, elems = xs\<rparr>"

text \<open>\<open>a[i]\<close> for a non-negative integer \<open>i\<close>: CasADi raises when the linear index is
  not below the number of entries.\<close>

definition dm_get :: "dm \<Rightarrow> nat \<Rightarrow> py_error + real" where
  "dm_get a i = (if i < size1 a * size2 a then Inr (elems a ! i) else Inl CasadiIndexOutOfBounds)"

text \<open>The attributes of a \<open>TractorTrailerModel\<close> instance (\<open>nx\<close>, \<open>nu\<close> from BaseModel).\<close>

record tractor_trailer_model =
  nx :: int
  nu :: int
  lb :: real
  lf :: real
  trailer_based_model :: bool

text \<open>\<open>1 / self._lf\<close> and \<open>self._lb / self._lf\<close> are divisions of Python numbers and
  raise ZeroDivisionError for a zero \<open>length_front\<close>.\<close>

definition theta2_dot_of :: "tractor_trailer_model \<Rightarrow> real \<Rightarrow> real \<Rightarrow> real \<Rightarrow> py_error + real" where
  "theta2_dot_of m v1 w1 gamma =
     ebind (py_div 1 (lf m)) (\<lambda>inv_lf.
     ebind (py_div (lb m) (lf m)) (\<lambda>ratio.
       Inr (- v1 * inv_lf * sin gamma - w1 * ratio * cos gamma)))"

definition gamma_dot_of :: "tractor_trailer_model \<Rightarrow> real \<Rightarrow> real \<Rightarrow> real \<Rightarrow> py_error + real" where
  "gamma_dot_of m v1 w1 gamma =
     ebind (py_div 1 (lf m)) (\<lambda>inv_lf.
     ebind (py_div (lb m) (lf m)) (\<lambda>ratio.
       Inr (- v1 * inv_lf * sin gamma - w1 * (ratio * cos gamma + 1))))"

text \<open>\<open>dynamics\<close>. The two size checks raise the exception \<open>SizeMismatch\<close>;
  \<open>cs.vertsplit(state)\<close> gives the rows of the column, and unpacking them raises ValueError
  unless their number fits. With a state of neither 4 nor 6 rows \<open>state_dot\<close> stays the
  empty list, and \<open>cs.vertcat\<close> of no rows is an empty matrix.\<close>

definition dynamics :: "tractor_trailer_model \<Rightarrow> dm \<Rightarrow> dm \<Rightarrow> py_error + dm" where
  "dynamics m state input =
     (if dm_size state \<noteq> (nx m, 1) then Inl SizeMismatch
      else if dm_size input \<noteq> (nu m, 1) then Inl SizeMismatch
      else
        ebind (dm_get input 0) (\<lambda>v1.
        ebind (dm_get input 1) (\<lambda>w1.
          if size1 state = 6 then
            (case elems state of
               [x1, y1, theta1, x2, y2, theta2] \<Rightarrow>
                 (let gamma = theta2 - theta1;
                      x1_dot = v1 * cos theta1;
                      y1_dot = v1 * sin theta1;
                      theta1_dot = w1;
                      x2_dot = v1 * cos theta2 * cos gamma - w1 * lb m * cos theta2 * sin gamma;
                      y2_dot = v1 * sin theta2 * cos gamma - w1 * lb m * sin theta2 * sin gamma
                  in ebind (theta2_dot_of m v1 w1 gamma) (\<lambda>theta2_dot.
                       Inr (column [x1_dot, y1_dot, theta1_dot, x2_dot, y2_dot, theta2_dot])))
             | _ \<Rightarrow> Inl ValueError)
          else if size1 state = 4 \<and> trailer_based_model m then
            (case elems state of
               [x2, y2, theta2, gamma] \<Rightarrow>
                 (let x2_dot = v1 * cos theta2 * cos gamma - w1 * lb m * cos theta2 * sin gamma;
                      y2_dot = v1 * sin theta2 * cos gamma - w1 * lb m * sin theta2 * sin gamma
                  in ebind (theta2_dot_of m v1 w1 gamma) (\<lambda>theta2_dot.
                     ebind (gamma_dot_of m v1 w1 gamma) (\<lambda>gamma_dot.
                       Inr (column [x2_dot, y2_dot, theta2_dot, gamma_dot]))))
             | _ \<Rightarrow> Inl ValueError)
          else if size1 state = 4 \<and> \<not> trailer_based_model m then
            (case elems state of
               [x1, y1, theta1, gamma] \<Rightarrow>
                 (let x1_dot = v1 * cos theta1;
                      y1_dot = v1 * sin theta1;
                      theta1_dot = w1
                  in ebind (gamma_dot_of m v1 w1 gamma) (\<lambda>gamma_dot.
                       Inr (column [x1_dot, y1_dot, theta1_dot, gamma_dot])))
             | _ \<Rightarrow> Inl ValueError)
          else Inr (column []))))"

text \<open>\<open>x2, y2, theta2, gamma = cs.vertsplit(state)\<close> raises ValueError unless the
  state has exactly four rows.\<close>

definition compute_tractor_pose_from_trailer_pose ::
  "tractor_trailer_model \<Rightarrow> dm \<Rightarrow> py_error + dm" where
  "compute_tractor_pose_from_trailer_pose m state =
     (if dm_size state \<noteq> (nx m, 1) then Inl SizeMismatch
      else case elems state of
        [x2, y2, theta2, gamma] \<Rightarrow>
          (let theta1 = theta2 - gamma;
               x1 = x2 + lf m * cos theta2 + lb m * cos theta1;
               y1 = y2 + lf m * sin theta2 + lb m * sin theta1
           in Inr (column [x1, y1, theta1]))
      | _ \<Rightarrow> Inl ValueError)"

definition compute_trailer_pose_from_tractor_pose ::
  "tractor_trailer_model \<Rightarrow> dm \<Rightarrow> py_error + dm" where
  "compute_trailer_pose_from_tractor_pose m state =
     (if dm_size state \<noteq> (nx m, 1) then Inl SizeMismatch
      else case elems state of
        [x1, y1, theta1, gamma] \<Rightarrow>
          (let theta2 = theta1 + gamma;
               x2 = x1 - lf m * cos theta1 - lb m * cos theta2;
               y2 = y1 - lf m * sin theta1 - lb m * sin theta2
           in Inr (column [x2, y2, theta2]))
      | _ \<Rightarrow> Inl ValueError)"

text \<open>The round trip: trailer pose from the tractor state, then the tractor
  pose from that trailer pose and the same hitch angle.\<close>

definition tractor_round_trip :: "tractor_trailer_model \<Rightarrow> real \<Rightarrow> real \<Rightarrow> real \<Rightarrow> real \<Rightarrow> py_error + dm" where
  "tractor_round_trip m x1 y1 theta1 gamma =
     ebind (compute_trailer_pose_from_tractor_pose m (column [x1, y1, theta1, gamma])) (\<lambda>trailer.
       compute_tractor_pose_from_trailer_pose m (column (elems trailer @ [gamma])))"

definition example_model :: tractor_trailer_model where
  "example_model = \<lparr>nx = 4, nu = 2, lb = 1, lf = 2, trailer_based_model = False\<rparr>"

section \<open>Planner data model (my\_hybrid\_astar.py)\<close>

text \<open>Python list access. \<open>xs[-1]\<close> and \<open>xs[i]\<close> raise IndexError out of range; an
  integer index below zero counts from the end.\<close>

definition py_last :: "'a list \<Rightarrow> py_error + 'a" where
  "py_last xs = (if xs = [] then Inl IndexError else Inr (last xs))"

definition py_nth :: "'a list \<Rightarrow> nat \<Rightarrow> py_error + 'a" where
  "py_nth xs i = (if i < length xs then Inr (xs ! i) else Inl IndexError)"

definition py_index :: "'a list \<Rightarrow> int \<Rightarrow> py_error + 'a" where
  "py_index xs i =
     (if 0 \<le> i \<and> i < int (length xs) then Inr (xs ! nat i)
      else if i < 0 \<and> - int (length xs) \<le> i then Inr (xs ! nat (int (length xs) + i))
      else Inl IndexError)"

text \<open>\<open>[xs[k] for k in ind]\<close>.\<close>

fun py_pick :: "'a list \<Rightarrow> nat list \<Rightarrow> py_error + 'a list" where
  "py_pick xs [] = Inr []"
| "py_pick xs (k # ks) =
     ebind (py_nth xs k) (\<lambda>v. ebind (py_pick xs ks) (\<lambda>vs. Inr (v # vs)))"

text \<open>\<open>range(0, n, k)\<close> for a positive step \<open>k\<close>.\<close>

definition py_range_step :: "nat \<Rightarrow> nat \<Rightarrow> nat list" where
  "py_range_step n k = filter (\<lambda>i. i mod k = 0) [0..<n]"

text \<open>Python's \<open>round\<close> of a float to an int: to the nearest integer, a tie to the even
  one.\<close>

definition py_round :: "real \<Rightarrow> int" where
  "py_round v =
     (let f = \<lfloor>v\<rfloor>; r = v - of_int f
      in if r < 1 / 2 then f else if r > 1 / 2 then f + 1 else if even f then f else f + 1)"

text \<open>\<open>math.hypot\<close>.\<close>

definition hypot :: "real \<Rightarrow> real \<Rightarrow> real" where
  "hypot a b = sqrt (a\<^sup>2 + b\<^sup>2)"

text \<open>Modelled from the spec: \<open>rs.pi_2_pi\<close> of the module \<open>reeds_shepp\<close>, which is not
  among the sources. The specification gives its contract: \<open>pi_2_pi(\<theta>) \<rightarrow> \<theta> \<in> (-\<pi>, \<pi>]\<close>,
  the angle wrapped by whole turns.\<close>

definition pi_2_pi :: "real \<Rightarrow> real" where
  "pi_2_pi theta = theta - 2 * pi * of_int \<lceil>(theta - pi) / (2 * pi)\<rceil>"

text \<open>A float that may be \<open>np.inf\<close> (entries of the heuristic map and queue priorities).\<close>

datatype pyfloat = Fin real | PInf

record holonomic_node =
  hx :: int
  hy :: int
  hcost :: real
  hpind :: int

record node =
  xind :: int
  yind :: int
  yawind :: int
  direction :: int
  node_x :: "real list"
  node_y :: "real list"
  node_yaw :: "real list"
  directions :: "int list"
  steer :: real
  cost :: real
  pind :: int

text \<open>\<open>Para\<close>. The field \<open>kdtree\<close> is the point list the scipy KD-tree was built from.\<close>

record para =
  minx :: int
  miny :: int
  minyaw :: int
  maxx :: int
  maxy :: int
  maxyaw :: int
  xw :: int
  yw :: int
  yaww :: int
  xyreso :: real
  yawreso :: real
  ox :: "real list"
  oy :: "real list"
  kdtree :: "(real \<times> real) list"

record path =
  path_x :: "real list"
  path_y :: "real list"
  path_yaw :: "real list"
  path_direction :: "int list"
  path_cost :: real

text \<open>scipy's \<open>KDTree.query_ball_point(c, r)\<close>: the indices of the points of the tree
  whose distance to \<open>c\<close> is at most \<open>r\<close>.\<close>

definition query_ball_point :: "(real \<times> real) list \<Rightarrow> real \<times> real \<Rightarrow> real \<Rightarrow> nat list" where
  "query_ball_point pts c r =
     filter (\<lambda>i. hypot (fst (pts ! i) - fst c) (snd (pts ! i) - snd c) \<le> r) [0..<length pts]"

section \<open>Collision checker\<close>

text \<open>The circumscribed radius \<open>r\<close> and the footprint centre of \<open>is_collision\<close>.\<close>

definition collision_radius :: "para \<Rightarrow> real" where
  "collision_radius P = max ((RF + RB) / 2) (W / 2) + xyreso P"

definition footprint_centre :: "real \<Rightarrow> real \<Rightarrow> real \<Rightarrow> real \<times> real" where
  "footprint_centre ix iy iyaw =
     (let dl = (RF - RB) / 2 in (ix + dl * cos iyaw, iy + dl * sin iyaw))"

text \<open>The test of one candidate obstacle \<open>(oxi, oyi)\<close> in the footprint frame.\<close>

definition obstacle_hits :: "para \<Rightarrow> real \<Rightarrow> real \<Rightarrow> real \<Rightarrow> real \<Rightarrow> real \<Rightarrow> bool" where
  "obstacle_hits P cx cy iyaw oxi oyi =
     (let xo = oxi - cx;
          yo = oyi - cy;
          dx = xo * cos iyaw + yo * sin iyaw;
          dy = - xo * sin iyaw + yo * cos iyaw
      in \<bar>dx\<bar> < collision_radius P \<and> \<bar>dy\<bar> < W / 2 + xyreso P)"

text \<open>The inner loop \<open>for i in ids\<close>: \<open>Inr True\<close> is the \<open>return True\<close>.\<close>

fun collision_ids :: "para \<Rightarrow> real \<Rightarrow> real \<Rightarrow> real \<Rightarrow> nat list \<Rightarrow> py_error + bool" where
  "collision_ids P cx cy iyaw [] = Inr False"
| "collision_ids P cx cy iyaw (i # ids) =
     ebind (py_nth (ox P) i) (\<lambda>oxi.
     ebind (py_nth (oy P) i) (\<lambda>oyi.
       if obstacle_hits P cx cy iyaw oxi oyi then Inr True
       else collision_ids P cx cy iyaw ids))"

text \<open>The outer loop over \<open>zip(x, y, yaw)\<close>.\<close>

fun collision_poses :: "para \<Rightarrow> (real \<times> real \<times> real) list \<Rightarrow> py_error + bool" where
  "collision_poses P [] = Inr False"
| "collision_poses P ((ix, iy, iyaw) # poses) =
     (let c = footprint_centre ix iy iyaw;
          ids = query_ball_point (kdtree P) c (collision_radius P)
      in ebind (collision_ids P (fst c) (snd c) iyaw ids) (\<lambda>hit.
           if hit then Inr True else collision_poses P poses))"

definition is_collision :: "real list \<Rightarrow> real list \<Rightarrow> real list \<Rightarrow> para \<Rightarrow> py_error + bool" where
  "is_collision x y yaw P = collision_poses P (zip x (zip y yaw))"

text \<open>A sampled pose with a colliding candidate among the results of the radius query.\<close>

definition pose_collides :: "para \<Rightarrow> real \<times> real \<times> real \<Rightarrow> bool" where
  "pose_collides P pose =
     (case pose of (ix, iy, iyaw) \<Rightarrow>
        (let c = footprint_centre ix iy iyaw
         in \<exists>i \<in> set (query_ball_point (kdtree P) c (collision_radius P)).
              obstacle_hits P (fst c) (snd c) iyaw (ox P ! i) (oy P ! i)))"

definition example_para :: para where
  "example_para = \<lparr>minx = 0, miny = 0, minyaw = -13, maxx = 10, maxy = 10, maxyaw = 12,
     xw = 10, yw = 10, yaww = 25, xyreso = 0.2, yawreso = pi / 12,
     ox = [0, 2], oy = [0, 2], kdtree = [(0, 0), (2, 2)]\<rparr>"

section \<open>Expansion of a node by one motion primitive\<close>

definition calc_index :: "node \<Rightarrow> para \<Rightarrow> int" where
  "calc_index n P =
     (yawind n - minyaw P) * xw P * yw P + (yind n - miny P) * xw P + (xind n - minx P)"

definition is_index_ok ::
  "int \<Rightarrow> int \<Rightarrow> real list \<Rightarrow> real list \<Rightarrow> real list \<Rightarrow> para \<Rightarrow> py_error + bool" where
  "is_index_ok xi yi xlist ylist yawlist P =
     (if xi \<le> minx P \<or> xi \<ge> maxx P \<or> yi \<le> miny P \<or> yi \<ge> maxy P then Inr False
      else
        (let ind = py_range_step (length xlist) COLLISION_CHECK_STEP
         in ebind (py_pick xlist ind) (\<lambda>nodex.
            ebind (py_pick ylist ind) (\<lambda>nodey.
            ebind (py_pick yawlist ind) (\<lambda>nodeyaw.
            ebind (is_collision nodex nodey nodeyaw P) (\<lambda>hit.
              if hit then Inr False else Inr True))))))"

text \<open>One round of the loop \<open>for i in range(nlist - 1)\<close> of \<open>calc_next_node\<close>; the
  lists hold \<open>i + 1\<close> samples when round \<open>i\<close> starts.\<close>

definition motion_step ::
  "real \<Rightarrow> real \<Rightarrow> nat \<Rightarrow> real list \<times> real list \<times> real list
     \<Rightarrow> real list \<times> real list \<times> real list" where
  "motion_step u d i s =
     (case s of (xlist, ylist, yawlist) \<Rightarrow>
        (xlist @ [xlist ! i + d * MOVE_STEP * cos (yawlist ! i)],
         ylist @ [ylist ! i + d * MOVE_STEP * sin (yawlist ! i)],
         yawlist @ [pi_2_pi (yawlist ! i + d * MOVE_STEP * u)]))"

text \<open>\<open>calc_next_node\<close>: \<open>Inr None\<close> is the \<open>return None\<close> of a rejected successor.\<close>

definition calc_next_node ::
  "node \<Rightarrow> int \<Rightarrow> real \<Rightarrow> real \<Rightarrow> para \<Rightarrow> py_error + node option" where
  "calc_next_node n_curr c_id u d P =
     (let step = XY_RESO * 2;
          nlist = nat \<lceil>step / MOVE_STEP\<rceil>
      in ebind (py_last (node_x n_curr)) (\<lambda>lx.
         ebind (py_last (node_yaw n_curr)) (\<lambda>lyaw.
         ebind (py_last (node_y n_curr)) (\<lambda>ly.
           (let first = ([lx + d * MOVE_STEP * cos lyaw],
                         [ly + d * MOVE_STEP * sin lyaw],
                         [pi_2_pi (lyaw + d * MOVE_STEP * u)]);
                lists = fold (motion_step u d) [0..<nlist - 1] first;
                xlist = fst lists;
                ylist = fst (snd lists);
                yawlist = snd (snd lists)
            in ebind (py_div (last xlist) (xyreso P)) (\<lambda>qx.
               ebind (py_div (last ylist) (xyreso P)) (\<lambda>qy.
               ebind (py_div (last yawlist) (yawreso P)) (\<lambda>qyaw.
                 (let xi = py_round qx;
                      yi = py_round qy;
                      yawi = py_round qyaw
                  in ebind (is_index_ok xi yi xlist ylist yawlist P) (\<lambda>ok.
                       if \<not> ok then Inr None
                       else
                         (let dir = (if d > 0 then 1 else - 1);
                              c0 = (if d > 0 then 0 + \<bar>step\<bar> else 0 + \<bar>step\<bar> * BACKWARD_COST);
                              c1 = (if dir \<noteq> direction n_curr then c0 + GEAR_COST else c0);
                              c2 = c1 + ANGULAR_VELOCITY_CHANGE_COST * \<bar>steer n_curr - u\<bar>;
                              c3 = cost n_curr + c2
                          in Inr (Some \<lparr>xind = xi, yind = yi, yawind = yawi, direction = dir,
                                         node_x = xlist, node_y = ylist, node_yaw = yawlist,
                                         directions = replicate (length xlist) dir,
                                         steer = u, cost = c3, pind = c_id\<rparr>))))))))))))"

text \<open>A node at the pose \<open>(1, 1, 0)\<close> of the example grid, as the planner builds its
  start node.\<close>

definition example_node :: node where
  "example_node = \<lparr>xind = 5, yind = 5, yawind = 0, direction = 1,
     node_x = [1], node_y = [1], node_yaw = [0], directions = [1],
     steer = 0, cost = 0, pind = - 1\<rparr>"

definition zero_front_model :: tractor_trailer_model where
  "zero_front_model = \<lparr>nx = 4, nu = 2, lb = 1, lf = 0, trailer_based_model = False\<rparr>"

text \<open>A DM holds as many entries as its dimensions say.\<close>

definition dm_wf :: "dm \<Rightarrow> bool" where
  "dm_wf a \<longleftrightarrow> length (elems a) = size1 a * size2 a"

definition example_child :: node where
  "example_child = \<lparr>xind = 7, yind = 5, yawind = 0, direction = 1,
     node_x = [6 / 5, 7 / 5], node_y = [1, 1], node_yaw = [0, 0], directions = [1, 1],
     steer = 0, cost = 2 / 5, pind = 0\<rparr>"

definition successor_yaws :: "node \<Rightarrow> real \<Rightarrow> real \<Rightarrow> real list" where
  "successor_yaws n_curr u d =
     [pi_2_pi (last (node_yaw n_curr) + d * MOVE_STEP * u),
      pi_2_pi (pi_2_pi (last (node_yaw n_curr) + d * MOVE_STEP * u) + d * MOVE_STEP * u)]"


section \<open>Holonomic heuristic with obstacles\<close>

definition get_motion :: "(int \<times> int) list" where
  "get_motion = [(- 1, 0), (- 1, 1), (0, 1), (1, 1), (1, 0), (1, - 1), (0, - 1), (- 1, - 1)]"

definition u_cost :: "int \<times> int \<Rightarrow> real" where
  "u_cost u = hypot (of_int (fst u)) (of_int (snd u))"

definition calc_holonomic_index :: "holonomic_node \<Rightarrow> para \<Rightarrow> int" where
  "calc_holonomic_index n P = (hy n - miny P) * xw P + (hx n - minx P)"

text \<open>A list comprehension whose element expression may raise.\<close>

fun emap :: "('a \<Rightarrow> 'e + 'b) \<Rightarrow> 'a list \<Rightarrow> 'e + 'b list" where
  "emap f [] = Inr []"
| "emap f (v # vs) = ebind (f v) (\<lambda>w. ebind (emap f vs) (\<lambda>ws. Inr (w # ws)))"

text \<open>\<open>obstacles_map\<close>. The quotient \<open>rr / P.xyreso\<close> of the innermost loop is only
  evaluated when there is an obstacle, after the divisions of the two comprehensions
  have succeeded.\<close>

definition obstacles_map :: "para \<Rightarrow> real \<Rightarrow> py_error + bool list list" where
  "obstacles_map P rr =
     ebind (emap (\<lambda>v. ebind (py_div v (xyreso P)) (\<lambda>w. Inr (py_round w))) (ox P)) (\<lambda>ox_grid.
     ebind (emap (\<lambda>v. ebind (py_div v (xyreso P)) (\<lambda>w. Inr (py_round w))) (oy P)) (\<lambda>oy_grid.
       Inr (map (\<lambda>i. map (\<lambda>j.
              (let xx = int i + minx P; yy = int j + miny P
               in list_ex (\<lambda>(oxx, oyy). hypot (of_int (oxx - xx)) (of_int (oyy - yy))
                                         \<le> rr / xyreso P)
                    (zip ox_grid oy_grid)))
            [0..<nat (yw P)]) [0..<nat (xw P)])))"

definition check_holonomic_node :: "holonomic_node \<Rightarrow> para \<Rightarrow> bool list list \<Rightarrow> py_error + bool" where
  "check_holonomic_node n P obsmap =
     (if hx n \<le> minx P \<or> hx n \<ge> maxx P \<or> hy n \<le> miny P \<or> hy n \<ge> maxy P then Inr False
      else ebind (py_index obsmap (hx n - minx P)) (\<lambda>row.
           ebind (py_index row (hy n - miny P)) (\<lambda>blocked.
             if blocked then Inr False else Inr True)))"

text \<open>\<open>heapq\<close> on tuples \<open>(cost, index)\<close>: tuples compare lexicographically, \<open>heappop\<close>
  removes and returns the least tuple and raises IndexError on an empty heap. The heap is
  kept as the list of its entries.\<close>

definition tuple_less :: "real \<times> int \<Rightarrow> real \<times> int \<Rightarrow> bool" where
  "tuple_less a b \<longleftrightarrow> fst a < fst b \<or> (fst a = fst b \<and> snd a < snd b)"

fun heap_min :: "real \<times> int \<Rightarrow> (real \<times> int) list \<Rightarrow> real \<times> int" where
  "heap_min m [] = m"
| "heap_min m (e # es) = heap_min (if tuple_less e m then e else m) es"

definition heappush :: "(real \<times> int) list \<Rightarrow> real \<times> int \<Rightarrow> (real \<times> int) list" where
  "heappush q e = q @ [e]"

definition heappop :: "(real \<times> int) list \<Rightarrow> py_error + (real \<times> int) \<times> (real \<times> int) list" where
  "heappop q =
     (case q of [] \<Rightarrow> Inl IndexError
      | e # es \<Rightarrow> (let m = heap_min e es in Inr (m, remove1 m q)))"

text \<open>The dictionaries \<open>open_set\<close> and \<open>closed_set\<close> are association lists in insertion
  order with one entry per key: \<open>d[k] = v\<close> is \<open>AList.update\<close>, \<open>d.pop(k)\<close> is
  \<open>AList.delete\<close>, \<open>d[k]\<close> is \<open>map_of\<close> (KeyError on \<open>None\<close>).\<close>

record hstate =
  h_open :: "(int \<times> holonomic_node) list"
  h_closed :: "(int \<times> holonomic_node) list"
  h_queue :: "(real \<times> int) list"

text \<open>The loop \<open>for i in range(len(motion))\<close> over the remaining motions; it changes
  \<open>open_set\<close> and \<open>q_priority\<close> only.\<close>

fun holonomic_expand ::
  "para \<Rightarrow> bool list list \<Rightarrow> holonomic_node \<Rightarrow> int \<Rightarrow> (int \<times> holonomic_node) list
     \<Rightarrow> (int \<times> int) list \<Rightarrow> (int \<times> holonomic_node) list \<times> (real \<times> int) list
     \<Rightarrow> py_error + (int \<times> holonomic_node) list \<times> (real \<times> int) list" where
  "holonomic_expand P obsmap n_curr ind closed_set [] oq = Inr oq"
| "holonomic_expand P obsmap n_curr ind closed_set (m # ms) oq =
     (let n = \<lparr>hx = hx n_curr + fst m, hy = hy n_curr + snd m,
                hcost = hcost n_curr + u_cost m, hpind = ind\<rparr>
      in case check_holonomic_node n P obsmap of
           Inl e \<Rightarrow> Inl e
         | Inr ok \<Rightarrow>
             if \<not> ok then holonomic_expand P obsmap n_curr ind closed_set ms oq
             else
               (let n_ind = calc_holonomic_index n P
                in if n_ind \<notin> fst ` set closed_set then
                     (case map_of (fst oq) n_ind of
                        Some old \<Rightarrow>
                          if hcost old > hcost n then
                            holonomic_expand P obsmap n_curr ind closed_set ms
                              (AList.update n_ind (old\<lparr>hcost := hcost n, hpind := ind\<rparr>) (fst oq),
                               snd oq)
                          else holonomic_expand P obsmap n_curr ind closed_set ms oq
                      | None \<Rightarrow>
                          holonomic_expand P obsmap n_curr ind closed_set ms
                            (AList.update n_ind n (fst oq), heappush (snd oq) (hcost n, n_ind)))
                   else holonomic_expand P obsmap n_curr ind closed_set ms oq))"

text \<open>One pass of the body of \<open>while True\<close> after the test of \<open>open_set\<close>.\<close>

definition holonomic_iter :: "para \<Rightarrow> bool list list \<Rightarrow> hstate \<Rightarrow> py_error + hstate" where
  "holonomic_iter P obsmap st =
     (case heappop (h_queue st) of
        Inl e \<Rightarrow> Inl e
      | Inr (popped, q1) \<Rightarrow>
          (let ind = snd popped
           in case map_of (h_open st) ind of
                None \<Rightarrow> Inl KeyError
              | Some n_curr \<Rightarrow>
                  (let closed1 = AList.update ind n_curr (h_closed st);
                       open1 = AList.delete ind (h_open st)
                   in case holonomic_expand P obsmap n_curr ind closed1 get_motion (open1, q1) of
                        Inl e \<Rightarrow> Inl e
                      | Inr oq \<Rightarrow> Inr \<lparr>h_open = fst oq, h_closed = closed1, h_queue = snd oq\<rparr>)))"

text \<open>The keys of the cells that pass the bounds test of \<open>check_holonomic_node\<close>.\<close>

definition grid_keys :: "para \<Rightarrow> int set" where
  "grid_keys P = (\<lambda>(a, b). (b - miny P) * xw P + (a - minx P))
                   ` ({minx P <..< maxx P} \<times> {miny P <..< maxy P})"

lemma finite_grid_keys: "finite (grid_keys P)"
  by (simp add: grid_keys_def)

lemma check_holonomic_node_key:
  "check_holonomic_node n P obsmap = Inr True \<Longrightarrow> calc_holonomic_index n P \<in> grid_keys P"
  unfolding check_holonomic_node_def grid_keys_def calc_holonomic_index_def
  by (auto split: if_splits intro!: image_eqI [where x = "(hx n, hy n)"])

lemma keys_update: "fst ` set (AList.update k v al) = insert k (fst ` set al)"
  by (induction al) auto

lemma keys_delete: "fst ` set (AList.delete k al) = fst ` set al - {k}"
  by (induction al) auto

lemma holonomic_expand_keys:
  "holonomic_expand P obsmap n_curr ind closed_set ms oq = Inr oq' \<Longrightarrow>
   fst ` set (fst oq') \<subseteq> fst ` set (fst oq) \<union> (grid_keys P - fst ` set closed_set)"
proof (induction ms arbitrary: oq)
  case Nil
  then show ?case by auto
next
  case (Cons m ms)
  define n where "n = \<lparr>hx = hx n_curr + fst m, hy = hy n_curr + snd m,
                hcost = hcost n_curr + u_cost m, hpind = ind\<rparr>"
  define n_ind where "n_ind = calc_holonomic_index n P"
  from Cons.prems obtain ok where ok: "check_holonomic_node n P obsmap = Inr ok"
    by (auto simp: Let_def n_def split: sum.splits)
  show ?case
  proof (cases "ok \<and> n_ind \<notin> fst ` set closed_set")
    case False
    with Cons.prems ok have "holonomic_expand P obsmap n_curr ind closed_set ms oq = Inr oq'"
      by (auto simp: Let_def n_def [symmetric] n_ind_def [symmetric] split: if_splits)
    from Cons.IH [OF this] show ?thesis .
  next
    case True
    then have key: "n_ind \<in> grid_keys P - fst ` set closed_set"
      using ok check_holonomic_node_key [of n P obsmap] by (simp add: n_ind_def)
    show ?thesis
    proof (cases "map_of (fst oq) n_ind")
      case None
      with Cons.prems ok True have
        "holonomic_expand P obsmap n_curr ind closed_set ms
           (AList.update n_ind n (fst oq), heappush (snd oq) (hcost n, n_ind)) = Inr oq'"
        by (simp add: Let_def n_def [symmetric] n_ind_def [symmetric])
      from Cons.IH [OF this] key show ?thesis
        unfolding fst_conv keys_update by blast
    next
      case (Some old)
      show ?thesis
      proof (cases "hcost old > hcost n")
        case gt: True
        with Cons.prems ok True Some have *:
          "holonomic_expand P obsmap n_curr ind closed_set ms
             (AList.update n_ind (old\<lparr>hcost := hcost n, hpind := ind\<rparr>) (fst oq), snd oq) = Inr oq'"
          by (simp add: Let_def n_def [symmetric] n_ind_def [symmetric])
        from Some have "n_ind \<in> fst ` set (fst oq)"
          by (metis map_of_SomeD fst_conv image_eqI)
        with Cons.IH [OF *] show ?thesis
          unfolding fst_conv keys_update by blast
      next
        case le: False
        with Cons.prems ok True Some have
          "holonomic_expand P obsmap n_curr ind closed_set ms oq = Inr oq'"
          by (simp add: Let_def n_def [symmetric] n_ind_def [symmetric])
        from Cons.IH [OF this] show ?thesis .
      qed
    qed
  qed
qed

lemma holonomic_iter_keys:
  assumes "holonomic_iter P obsmap st = Inr st'"
  shows "\<exists>ind. ind \<in> fst ` set (h_open st)
           \<and> fst ` set (h_closed st') = insert ind (fst ` set (h_closed st))
           \<and> fst ` set (h_open st')
               \<subseteq> (fst ` set (h_open st) - {ind}) \<union> (grid_keys P - fst ` set (h_closed st'))"
proof -
  from assms obtain popped q1 where pop: "heappop (h_queue st) = Inr (popped, q1)"
    by (auto simp: holonomic_iter_def split: sum.splits)
  define ind where "ind = snd popped"
  from assms pop obtain n_curr where cur: "map_of (h_open st) ind = Some n_curr"
    by (auto simp: holonomic_iter_def Let_def ind_def split: option.splits)
  define closed1 where "closed1 = AList.update ind n_curr (h_closed st)"
  define open1 where "open1 = AList.delete ind (h_open st)"
  from assms pop cur obtain oq where
    ex: "holonomic_expand P obsmap n_curr ind closed1 get_motion (open1, q1) = Inr oq"
    and st': "st' = \<lparr>h_open = fst oq, h_closed = closed1, h_queue = snd oq\<rparr>"
    by (auto simp: holonomic_iter_def Let_def ind_def [symmetric] closed1_def open1_def
        split: sum.splits)
  have "ind \<in> fst ` set (h_open st)"
    using cur by (metis map_of_SomeD fst_conv image_eqI)
  moreover have "fst ` set (h_closed st') = insert ind (fst ` set (h_closed st))"
    by (simp add: st' closed1_def keys_update)
  moreover have "fst ` set (h_open st')
               \<subseteq> (fst ` set (h_open st) - {ind}) \<union> (grid_keys P - fst ` set (h_closed st'))"
    using holonomic_expand_keys [OF ex] by (simp add: st' open1_def keys_delete)
  ultimately show ?thesis by blast
qed

definition holonomic_measure :: "para \<times> bool list list \<times> hstate \<Rightarrow> nat \<times> nat" where
  "holonomic_measure a =
     (case a of (P, obsmap, st) \<Rightarrow>
        (card (grid_keys P - fst ` set (h_closed st)),
         card (fst ` set (h_open st) - (grid_keys P - fst ` set (h_closed st)))))"

lemma holonomic_iter_decreases:
  assumes "holonomic_iter P obsmap st = Inr st'"
  shows "(holonomic_measure (P, obsmap, st'), holonomic_measure (P, obsmap, st))
           \<in> less_than <*lex*> less_than"
proof -
  from holonomic_iter_keys [OF assms] obtain ind where
    i: "ind \<in> fst ` set (h_open st)"
    and c: "fst ` set (h_closed st') = insert ind (fst ` set (h_closed st))"
    and o: "fst ` set (h_open st')
               \<subseteq> (fst ` set (h_open st) - {ind}) \<union> (grid_keys P - fst ` set (h_closed st'))"
    by blast
  define U where "U = grid_keys P - fst ` set (h_closed st)"
  define U' where "U' = grid_keys P - fst ` set (h_closed st')"
  have fU: "finite U" by (simp add: U_def finite_grid_keys)
  show ?thesis
  proof (cases "ind \<in> U")
    case True
    have "U' = U - {ind}" using c by (auto simp: U_def U'_def)
    then have "card U' < card U" using True fU card_Diff1_less [of U ind] by simp
    then show ?thesis
      by (simp add: holonomic_measure_def U_def U'_def)
  next
    case False
    then have eq: "U' = U" using c by (auto simp: U_def U'_def)
    have "fst ` set (h_open st') - U' \<subseteq> (fst ` set (h_open st) - U) - {ind}"
      using o eq by (auto simp: U'_def)
    moreover have "ind \<in> fst ` set (h_open st) - U" using i False by simp
    ultimately have "fst ` set (h_open st') - U' \<subset> fst ` set (h_open st) - U" by blast
    then have "card (fst ` set (h_open st') - U') < card (fst ` set (h_open st) - U)"
      by (intro psubset_card_mono) auto
    with eq show ?thesis
      by (simp add: holonomic_measure_def U_def U'_def)
  qed
qed

function holonomic_loop ::
  "para \<Rightarrow> bool list list \<Rightarrow> hstate \<Rightarrow> py_error + (int \<times> holonomic_node) list" where
  "holonomic_loop P obsmap st =
     (if h_open st = [] then Inr (h_closed st)
      else case holonomic_iter P obsmap st of
             Inl e \<Rightarrow> Inl e
           | Inr st' \<Rightarrow> holonomic_loop P obsmap st')"
  by pat_completeness auto
termination
proof (relation "inv_image (less_than <*lex*> less_than) holonomic_measure")
  show "wf (inv_image (less_than <*lex*> less_than) holonomic_measure)"
    by (intro wf_inv_image wf_lex_prod wf_less_than)
next
  fix P obsmap st st'
  assume "holonomic_iter P obsmap st = Inr st'"
  then show "((P, obsmap, st'), (P, obsmap, st))
      \<in> inv_image (less_than <*lex*> less_than) holonomic_measure"
    using holonomic_iter_decreases by (simp add: inv_image_def)
qed

declare holonomic_loop.simps [simp del]

text \<open>An entry of \<open>open_set\<close> or \<open>closed_set\<close> is filed under the index of its cell, has
  a non-negative cost, and is the goal cell at cost 0 or a cell that passed
  \<open>check_holonomic_node\<close>.\<close>

definition entry_ok :: "para \<Rightarrow> bool list list \<Rightarrow> holonomic_node \<Rightarrow> int \<Rightarrow> holonomic_node \<Rightarrow> bool" where
  "entry_ok P obsmap g k n \<longleftrightarrow>
     k = calc_holonomic_index n P \<and> 0 \<le> hcost n
     \<and> ((hx n = hx g \<and> hy n = hy g \<and> hcost n = 0) \<or> check_holonomic_node n P obsmap = Inr True)"

definition entries_ok :: "para \<Rightarrow> bool list list \<Rightarrow> holonomic_node \<Rightarrow> (int \<times> holonomic_node) list \<Rightarrow> bool" where
  "entries_ok P obsmap g al \<longleftrightarrow> (\<forall>k n. map_of al k = Some n \<longrightarrow> entry_ok P obsmap g k n)"

definition oq_inv ::
  "para \<Rightarrow> bool list list \<Rightarrow> holonomic_node \<Rightarrow> (int \<times> holonomic_node) list
     \<Rightarrow> (int \<times> holonomic_node) list \<times> (real \<times> int) list \<Rightarrow> bool" where
  "oq_inv P obsmap g closed_set oq \<longleftrightarrow>
     distinct (map fst (fst oq)) \<and> distinct (map snd (snd oq))
     \<and> snd ` set (snd oq) = fst ` set (fst oq)
     \<and> fst ` set (fst oq) \<inter> fst ` set closed_set = {}
     \<and> entries_ok P obsmap g (fst oq)"

definition hinv :: "para \<Rightarrow> bool list list \<Rightarrow> holonomic_node \<Rightarrow> hstate \<Rightarrow> bool" where
  "hinv P obsmap g st \<longleftrightarrow>
     oq_inv P obsmap g (h_closed st) (h_open st, h_queue st)
     \<and> distinct (map fst (h_closed st)) \<and> entries_ok P obsmap g (h_closed st)"


text \<open>The position a Python index denotes in a list of \<open>n\<close> elements.\<close>

definition py_position :: "nat \<Rightarrow> int \<Rightarrow> py_error + nat" where
  "py_position n i =
     (if 0 \<le> i \<and> i < int n then Inr (nat i)
      else if i < 0 \<and> - int n \<le> i then Inr (nat (int n + i))
      else Inl IndexError)"

text \<open>\<open>hmap[i][j] = v\<close>.\<close>

definition hmap_store ::
  "pyfloat list list \<Rightarrow> int \<Rightarrow> int \<Rightarrow> pyfloat \<Rightarrow> py_error + pyfloat list list" where
  "hmap_store hmap i j v =
     ebind (py_position (length hmap) i) (\<lambda>a.
     ebind (py_position (length (hmap ! a)) j) (\<lambda>b.
       Inr (hmap[a := (hmap ! a)[b := v]])))"

text \<open>The loop \<open>for n in closed_set.values()\<close>.\<close>

fun hmap_fill ::
  "para \<Rightarrow> holonomic_node list \<Rightarrow> pyfloat list list \<Rightarrow> py_error + pyfloat list list" where
  "hmap_fill P [] hmap = Inr hmap"
| "hmap_fill P (n # ns) hmap =
     ebind (hmap_store hmap (hx n - minx P) (hy n - miny P) (Fin (hcost n))) (hmap_fill P ns)"

text \<open>The goal node \<open>n_goal\<close> of \<open>calc_holonomic_heuristic_with_obstacle\<close>.\<close>

definition holonomic_goal :: "node \<Rightarrow> para \<Rightarrow> py_error + holonomic_node" where
  "holonomic_goal n P =
     ebind (py_last (node_x n)) (\<lambda>lx.
     ebind (py_div lx (xyreso P)) (\<lambda>qx.
     ebind (py_last (node_y n)) (\<lambda>ly.
     ebind (py_div ly (xyreso P)) (\<lambda>qy.
       Inr \<lparr>hx = py_round qx, hy = py_round qy, hcost = 0, hpind = - 1\<rparr>))))"

definition holonomic_init :: "holonomic_node \<Rightarrow> para \<Rightarrow> hstate" where
  "holonomic_init n_goal P =
     \<lparr>h_open = AList.update (calc_holonomic_index n_goal P) n_goal [],
      h_closed = [],
      h_queue = heappush [] (hcost n_goal, calc_holonomic_index n_goal P)\<rparr>"

text \<open>The first part of \<open>calc_holonomic_heuristic_with_obstacle\<close>, up to the end of the
  \<open>while\<close> loop: the closed set.\<close>

definition holonomic_closed_set ::
  "node \<Rightarrow> para \<Rightarrow> real \<Rightarrow> py_error + (int \<times> holonomic_node) list" where
  "holonomic_closed_set n P radius =
     ebind (holonomic_goal n P) (\<lambda>n_goal.
     ebind (obstacles_map P radius) (\<lambda>obsmap.
       holonomic_loop P obsmap (holonomic_init n_goal P)))"

definition calc_holonomic_heuristic_with_obstacle ::
  "node \<Rightarrow> para \<Rightarrow> real \<Rightarrow> py_error + pyfloat list list" where
  "calc_holonomic_heuristic_with_obstacle n P radius =
     ebind (holonomic_closed_set n P radius) (\<lambda>closed_set.
       hmap_fill P (map snd closed_set)
         (replicate (nat (xw P)) (replicate (nat (yw P)) PInf)))"

text \<open>The cell of the heuristic map a node is written to.\<close>

definition hcell :: "para \<Rightarrow> holonomic_node \<Rightarrow> int \<times> int" where
  "hcell P n = (hx n - minx P, hy n - miny P)"

definition lane_para :: para where
  "lane_para = \<lparr>minx = 0, miny = 0, minyaw = - 13, maxx = 4, maxy = 2, maxyaw = 12,
     xw = 4, yw = 2, yaww = 25, xyreso = 1, yawreso = pi / 12,
     ox = [0, 4], oy = [0, 2], kdtree = [(0, 0), (4, 2)]\<rparr>"

definition lane_goal :: node where
  "lane_goal = \<lparr>xind = 2, yind = 1, yawind = 0, direction = 1,
     node_x = [2], node_y = [1], node_yaw = [0], directions = [1],
     steer = 0, cost = 0, pind = - 1\<rparr>"

definition RADIUS :: real where "RADIUS = 0.4"

definition lane_holonomic_goal :: holonomic_node where
  "lane_holonomic_goal = \<lparr>hx = 2, hy = 1, hcost = 0, hpind = - 1\<rparr>"

definition lane_obsmap :: "bool list list" where
  "lane_obsmap = [[True, False], [False, False], [False, False], [False, False]]"

definition lane_hmap :: "pyfloat list list" where
  "lane_hmap = [[PInf, PInf], [PInf, Fin 1], [PInf, Fin 0], [PInf, Fin 1]]"

text \<open>The successor of \<open>lane_goal\<close> (key 110 in the lane grid) by the primitive
  \<open>u = 0\<close>, \<open>d = 1\<close>.\<close>

definition lane_child :: node where
  "lane_child = \<lparr>xind = 2, yind = 1, yawind = 0, direction = 1,
     node_x = [11 / 5, 12 / 5], node_y = [1, 1], node_yaw = [0, 0], directions = [1, 1],
     steer = 0, cost = 2 / 5, pind = 110\<rparr>"

text \<open>A goal node at the pose \<open>(-1, 1, 0)\<close>, one cell left of the lane grid, as the
  planner builds it for \<open>gx = -1\<close>, \<open>gy = 1\<close>, \<open>gyaw = 0\<close>.\<close>

definition off_goal :: node where
  "off_goal = \<lparr>xind = - 1, yind = 1, yawind = 0, direction = 1,
     node_x = [- 1], node_y = [1], node_yaw = [0], directions = [1],
     steer = 0, cost = 0, pind = - 1\<rparr>"

definition off_holonomic_goal :: holonomic_node where
  "off_holonomic_goal = \<lparr>hx = - 1, hy = 1, hcost = 0, hpind = - 1\<rparr>"

definition off_hmap :: "pyfloat list list" where
  "off_hmap = [[PInf, PInf], [PInf, PInf], [PInf, PInf], [PInf, Fin 0]]"

section \<open>Properties of the collision checker, the expansion and the heuristic\<close>

lemma list_of_length4: "length xs = 4 \<Longrightarrow> \<exists>a b c d. xs = [a, b, c, d]"
  by (auto simp: numeral_eq_Suc length_Suc_conv)

lemma list_of_length6: "length xs = 6 \<Longrightarrow> \<exists>a b c d e f. xs = [a, b, c, d, e, f]"
  by (auto simp: numeral_eq_Suc length_Suc_conv)

subsection \<open>Collision checker\<close>

lemma hypot_le_iff: "hypot a b \<le> r \<longleftrightarrow> 0 \<le> r \<and> a\<^sup>2 + b\<^sup>2 \<le> r\<^sup>2"
proof -
  have nn: "0 \<le> a\<^sup>2 + b\<^sup>2" by simp
  show ?thesis
  proof (cases "0 \<le> r")
    case True
    then have "sqrt (a\<^sup>2 + b\<^sup>2) \<le> r \<longleftrightarrow> a\<^sup>2 + b\<^sup>2 \<le> r\<^sup>2"
      by (metis nn real_sqrt_le_iff real_sqrt_abs abs_of_nonneg)
    with True show ?thesis by (simp add: hypot_def)
  next
    case False
    have "0 \<le> sqrt (a\<^sup>2 + b\<^sup>2)" by simp
    with False have "\<not> sqrt (a\<^sup>2 + b\<^sup>2) \<le> r" by linarith
    with False show ?thesis by (simp add: hypot_def)
  qed
qed

lemma upt_0_2: "[0..<2] = [0, 1]"
  by (simp add: upt_rec)

lemma query_ball_point_bound: "i \<in> set (query_ball_point pts c r) \<Longrightarrow> i < length pts"
  by (simp add: query_ball_point_def)

lemma collision_ids_eq:
  "\<forall>i \<in> set ids. i < length (ox P) \<and> i < length (oy P) \<Longrightarrow>
   collision_ids P cx cy iyaw ids =
     Inr (\<exists>i \<in> set ids. obstacle_hits P cx cy iyaw (ox P ! i) (oy P ! i))"
  by (induction ids) (auto simp: ebind_def py_nth_def)

lemma collision_poses_eq:
  "kdtree P = zip (ox P) (oy P) \<Longrightarrow>
   collision_poses P poses = Inr (\<exists>pose \<in> set poses. pose_collides P pose)"
proof (induction poses)
  case Nil
  then show ?case by simp
next
  case (Cons pose poses)
  obtain ix iy iyaw where pose: "pose = (ix, iy, iyaw)" by (cases pose) auto
  define c where "c = footprint_centre ix iy iyaw"
  define ids where "ids = query_ball_point (kdtree P) c (collision_radius P)"
  have "\<forall>i \<in> set ids. i < length (ox P) \<and> i < length (oy P)"
    using query_ball_point_bound [of _ "kdtree P" c "collision_radius P"] Cons.prems
    by (auto simp: ids_def)
  then have ids: "collision_ids P (fst c) (snd c) iyaw ids =
      Inr (\<exists>i \<in> set ids. obstacle_hits P (fst c) (snd c) iyaw (ox P ! i) (oy P ! i))"
    by (rule collision_ids_eq)
  have pc: "pose_collides P pose \<longleftrightarrow>
      (\<exists>i \<in> set ids. obstacle_hits P (fst c) (snd c) iyaw (ox P ! i) (oy P ! i))"
    by (simp add: pose_collides_def pose c_def ids_def Let_def)
  show ?case
    using Cons.IH [OF Cons.prems] ids pc
    by (simp add: pose Let_def ebind_def c_def [symmetric] ids_def [symmetric])
qed

lemma is_collision_pose_collides:
  "kdtree P = zip (ox P) (oy P) \<Longrightarrow>
   is_collision x y yaw P = Inr (\<exists>pose \<in> set (zip x (zip y yaw)). pose_collides P pose)"
  unfolding is_collision_def by (rule collision_poses_eq)

subsection \<open>Expansion\<close>

lemma pi_2_pi_range: "- pi < pi_2_pi t \<and> pi_2_pi t \<le> pi"
proof -
  define k where "k = \<lceil>(t - pi) / (2 * pi)\<rceil>"
  have p: "0 < 2 * pi" by simp
  have "(t - pi) / (2 * pi) \<le> of_int k" unfolding k_def by (rule le_of_int_ceiling)
  then have u: "t - pi \<le> of_int k * (2 * pi)" using p by (simp add: pos_divide_le_eq)
  have "of_int k - 1 < (t - pi) / (2 * pi)" unfolding k_def by linarith
  then have l: "(of_int k - 1) * (2 * pi) < t - pi" using p by (simp add: pos_less_divide_eq)
  have "pi_2_pi t = t - 2 * pi * of_int k" by (simp add: pi_2_pi_def k_def)
  with u l show ?thesis by (simp add: algebra_simps)
qed

lemma pi_2_pi_0: "pi_2_pi 0 = 0"
proof -
  have "(0 - pi) / (2 * pi) = - (1 / 2)" by simp
  then have "\<lceil>(0 - pi) / (2 * pi)\<rceil> = (0::int)" by (simp add: ceiling_eq_iff)
  then show ?thesis by (simp add: pi_2_pi_def)
qed

lemma py_round_of_int: "py_round (of_int k) = k"
  by (simp add: py_round_def)

lemma py_round_numeral: "py_round (numeral k) = numeral k"
  using py_round_of_int [of "numeral k"] by simp

lemma py_round_0: "py_round 0 = 0"
  using py_round_of_int [of 0] by simp

lemma nlist_range: "[0..<nat \<lceil>XY_RESO * 2 / MOVE_STEP\<rceil> - 1] = [0]"
proof -
  have "XY_RESO * 2 / MOVE_STEP = 2" by (simp add: XY_RESO_def MOVE_STEP_def)
  then have "nat \<lceil>XY_RESO * 2 / MOVE_STEP\<rceil> - 1 = 1" by simp
  then show ?thesis by simp
qed

lemma motion_lists:
  "fold (motion_step u d) [0..<nat \<lceil>XY_RESO * 2 / MOVE_STEP\<rceil> - 1] ([a], [b], [c]) =
     ([a, a + d * MOVE_STEP * cos c], [b, b + d * MOVE_STEP * sin c],
      [c, pi_2_pi (c + d * MOVE_STEP * u)])"
  by (simp only: nlist_range) (simp add: motion_step_def)

lemma calc_next_node_example:
  "calc_next_node example_node 0 0 1 example_para = Inr (Some example_child)"
proof -
  have ok: "is_index_ok 7 5 [6/5, 7/5] [1, 1] [0, 0] example_para = Inr True"
    by (simp add: is_index_ok_def example_para_def py_range_step_def COLLISION_CHECK_STEP_def upt_0_2
        ebind_def py_nth_def is_collision_def footprint_centre_def collision_radius_def
        query_ball_point_def hypot_le_iff RF_def RB_def W_def power2_eq_square
        del: le_divide_eq_numeral1)
  have p: "xyreso example_para = 1/5" "yawreso example_para = pi / 12"
    by (simp_all add: example_para_def)
  show ?thesis
    unfolding calc_next_node_def Let_def motion_lists
    by (simp add: example_node_def py_last_def ebind_def pi_2_pi_0 MOVE_STEP_def py_div_def p
       py_round_numeral py_round_0 ok XY_RESO_def example_child_def)
qed

text \<open>What a returned successor looks like.\<close>

lemma calc_next_node_SomeD:
  assumes "calc_next_node n_curr c_id u d P = Inr (Some child)"
  shows "node_yaw child = successor_yaws n_curr u d"
    and "length (node_x child) = 2" and "length (node_y child) = 2"
    and "directions child = [direction child, direction child]"
    and "direction child = (if d > 0 then 1 else - 1)"
    and "steer child = u" and "pind child = c_id"
    and "minx P < xind child" and "xind child < maxx P"
    and "miny P < yind child" and "yind child < maxy P"
    and "yawind child = py_round (last (node_yaw child) / yawreso P)"
    and "cost child = cost n_curr +
         ((if d > 0 then \<bar>XY_RESO * 2\<bar> else \<bar>XY_RESO * 2\<bar> * BACKWARD_COST)
          + (if (if d > 0 then 1 else - 1) \<noteq> direction n_curr then GEAR_COST else 0)
          + ANGULAR_VELOCITY_CHANGE_COST * \<bar>steer n_curr - u\<bar>)"
proof -
  from assms obtain lx lyaw ly qx qy qyaw where
    l: "py_last (node_x n_curr) = Inr lx" "py_last (node_yaw n_curr) = Inr lyaw"
       "py_last (node_y n_curr) = Inr ly"
    and q: "py_div (lx + d * MOVE_STEP * cos lyaw
                 + d * MOVE_STEP * cos (pi_2_pi (lyaw + d * MOVE_STEP * u))) (xyreso P) = Inr qx"
       "py_div (ly + d * MOVE_STEP * sin lyaw
                 + d * MOVE_STEP * sin (pi_2_pi (lyaw + d * MOVE_STEP * u))) (xyreso P) = Inr qy"
       "py_div (pi_2_pi (pi_2_pi (lyaw + d * MOVE_STEP * u) + d * MOVE_STEP * u)) (yawreso P) = Inr qyaw"
    unfolding calc_next_node_def Let_def motion_lists
    by (auto simp: ebind_def motion_lists split: sum.splits)
  have ly: "lyaw = last (node_yaw n_curr)"
    using l(2) by (simp add: py_last_def split: if_splits)
  from assms l q obtain ok where
    ok: "is_index_ok (py_round qx) (py_round qy)
           [lx + d * MOVE_STEP * cos lyaw, lx + d * MOVE_STEP * cos lyaw
                 + d * MOVE_STEP * cos (pi_2_pi (lyaw + d * MOVE_STEP * u))]
           [ly + d * MOVE_STEP * sin lyaw, ly + d * MOVE_STEP * sin lyaw
                 + d * MOVE_STEP * sin (pi_2_pi (lyaw + d * MOVE_STEP * u))]
           [pi_2_pi (lyaw + d * MOVE_STEP * u),
            pi_2_pi (pi_2_pi (lyaw + d * MOVE_STEP * u) + d * MOVE_STEP * u)] P = Inr ok"
    unfolding calc_next_node_def Let_def motion_lists
    by (auto simp: ebind_def split: sum.splits)
  from assms l q ok have okT: "ok"
    unfolding calc_next_node_def Let_def motion_lists
    by (auto simp: ebind_def split: if_splits)
  from ok okT have b: "minx P < py_round qx \<and> py_round qx < maxx P
      \<and> miny P < py_round qy \<and> py_round qy < maxy P"
    by (auto simp: is_index_ok_def split: if_splits)
  from assms l q ok okT have c: "child = \<lparr>xind = py_round qx, yind = py_round qy, yawind = py_round qyaw,
       direction = (if d > 0 then 1 else - 1),
       node_x = [lx + d * MOVE_STEP * cos lyaw, lx + d * MOVE_STEP * cos lyaw
                 + d * MOVE_STEP * cos (pi_2_pi (lyaw + d * MOVE_STEP * u))],
       node_y = [ly + d * MOVE_STEP * sin lyaw, ly + d * MOVE_STEP * sin lyaw
                 + d * MOVE_STEP * sin (pi_2_pi (lyaw + d * MOVE_STEP * u))],
       node_yaw = [pi_2_pi (lyaw + d * MOVE_STEP * u),
            pi_2_pi (pi_2_pi (lyaw + d * MOVE_STEP * u) + d * MOVE_STEP * u)],
       directions = replicate 2 (if d > 0 then 1 else - 1),
       steer = u,
       cost = cost n_curr +
         ((if d > 0 then 0 + \<bar>XY_RESO * 2\<bar> else 0 + \<bar>XY_RESO * 2\<bar> * BACKWARD_COST)
          + (if (if d > 0 then 1 else - 1) \<noteq> direction n_curr then GEAR_COST else 0)
          + ANGULAR_VELOCITY_CHANGE_COST * \<bar>steer n_curr - u\<bar>),
       pind = c_id\<rparr>"
    unfolding calc_next_node_def Let_def motion_lists
    by (auto simp: ebind_def numeral_2_eq_2 split: if_splits)
  show "node_yaw child = successor_yaws n_curr u d" by (simp add: c successor_yaws_def ly)
  show "length (node_x child) = 2" by (simp add: c)
  show "length (node_y child) = 2" by (simp add: c)
  show "directions child = [direction child, direction child]" by (simp add: c numeral_2_eq_2)
  show "direction child = (if d > 0 then 1 else - 1)" by (simp add: c)
  show "steer child = u" by (simp add: c)
  show "pind child = c_id" by (simp add: c)
  show "minx P < xind child" "xind child < maxx P" "miny P < yind child" "yind child < maxy P"
    using b by (simp_all add: c)
  show "yawind child = py_round (last (node_yaw child) / yawreso P)"
    using q(3) by (simp add: c py_div_def split: if_splits)
  show "cost child = cost n_curr +
         ((if d > 0 then \<bar>XY_RESO * 2\<bar> else \<bar>XY_RESO * 2\<bar> * BACKWARD_COST)
          + (if (if d > 0 then 1 else - 1) \<noteq> direction n_curr then GEAR_COST else 0)
          + ANGULAR_VELOCITY_CHANGE_COST * \<bar>steer n_curr - u\<bar>)"
    by (simp add: c)
qed

text \<open>The cost of a returned successor for a gear \<open>d\<close> of \<open>+1\<close> or \<open>-1\<close>: the parent's cost
  plus the arc length \<open>2 * XY_RESO\<close> of the configuration - not of \<open>xyreso P\<close> - times
  \<open>BACKWARD_COST\<close> when \<open>d < 0\<close>, plus \<open>GEAR_COST\<close> when \<open>d\<close> differs from the parent's
  gear, plus \<open>ANGULAR_VELOCITY_CHANGE_COST * |parent.steer - u|\<close>.\<close>

lemma calc_next_node_cost_rule:
  assumes "calc_next_node n_curr c_id u d P = Inr (Some child)" and "d = 1 \<or> d = - 1"
  shows "cost child = cost n_curr +
     ((if d < 0 then 2 * XY_RESO * BACKWARD_COST else 2 * XY_RESO)
      + (if d \<noteq> of_int (direction n_curr) then GEAR_COST else 0)
      + ANGULAR_VELOCITY_CHANGE_COST * \<bar>steer n_curr - u\<bar>)"
proof -
  have x: "\<bar>XY_RESO * 2\<bar> = 2 * XY_RESO" by (simp add: XY_RESO_def)
  note c = calc_next_node_SomeD(13) [OF assms(1)]
  from assms(2) show ?thesis
  proof
    assume "d = 1"
    then show ?thesis using c x by simp
  next
    assume "d = - 1"
    then show ?thesis using c x by simp
  qed
qed


subsection \<open>Invariants of the holonomic Dijkstra\<close>

lemma map_of_keys: "map_of al k = Some v \<Longrightarrow> k \<in> fst ` set al"
  by (metis map_of_SomeD fst_conv image_eqI)

lemma map_of_None_keys: "map_of al k = None \<longleftrightarrow> k \<notin> fst ` set al"
  by (simp add: map_of_eq_None_iff)

lemma entries_ok_update:
  "entries_ok P obsmap g al \<Longrightarrow> entry_ok P obsmap g k n \<Longrightarrow>
   entries_ok P obsmap g (AList.update k n al)"
  by (simp add: entries_ok_def update_conv')

lemma entries_ok_delete:
  "entries_ok P obsmap g al \<Longrightarrow> entries_ok P obsmap g (AList.delete k al)"
  by (auto simp: entries_ok_def delete_conv' restrict_map_def split: if_splits)

lemma oq_inv_insert:
  assumes "oq_inv P obsmap g closed_set oq" and "map_of (fst oq) k = None"
    and "k \<notin> fst ` set closed_set" and "entry_ok P obsmap g k n"
  shows "oq_inv P obsmap g closed_set (AList.update k n (fst oq), heappush (snd oq) (c, k))"
proof -
  from assms(2) have nk: "k \<notin> fst ` set (fst oq)" by (simp add: map_of_None_keys)
  with assms(1) have nq: "k \<notin> snd ` set (snd oq)" by (simp add: oq_inv_def)
  show ?thesis
    using assms(1,3,4) nk nq
    by (auto simp: oq_inv_def heappush_def keys_update distinct_update entries_ok_update)
qed

lemma oq_inv_lower:
  assumes "oq_inv P obsmap g closed_set oq" and "map_of (fst oq) k = Some old"
    and "entry_ok P obsmap g k n"
  shows "oq_inv P obsmap g closed_set (AList.update k n (fst oq), snd oq)"
proof -
  from assms(2) have "k \<in> fst ` set (fst oq)" by (rule map_of_keys)
  then have "insert k (fst ` set (fst oq)) = fst ` set (fst oq)" by auto
  with assms(1,3) show ?thesis
    by (simp add: oq_inv_def keys_update distinct_update entries_ok_update)
qed

lemma holonomic_expand_inv:
  assumes "holonomic_expand P obsmap n_curr ind closed_set ms oq = Inr oq'"
    and "oq_inv P obsmap g closed_set oq" and "0 \<le> hcost n_curr"
  shows "oq_inv P obsmap g closed_set oq'"
  using assms
proof (induction ms arbitrary: oq)
  case Nil
  then show ?case by simp
next
  case (Cons m ms)
  define n where "n = \<lparr>hx = hx n_curr + fst m, hy = hy n_curr + snd m,
                hcost = hcost n_curr + u_cost m, hpind = ind\<rparr>"
  define n_ind where "n_ind = calc_holonomic_index n P"
  have uc: "0 \<le> u_cost m" by (simp add: u_cost_def hypot_def)
  from Cons.prems(1) obtain ok where ok: "check_holonomic_node n P obsmap = Inr ok"
    by (auto simp: Let_def n_def split: sum.splits)
  show ?case
  proof (cases "ok \<and> n_ind \<notin> fst ` set closed_set")
    case False
    with Cons.prems(1) ok have "holonomic_expand P obsmap n_curr ind closed_set ms oq = Inr oq'"
      by (auto simp: Let_def n_def [symmetric] n_ind_def [symmetric] split: if_splits)
    from Cons.IH [OF this Cons.prems(2,3)] show ?thesis .
  next
    case True
    have en: "entry_ok P obsmap g n_ind n"
      using True ok uc Cons.prems(3) by (simp add: entry_ok_def n_ind_def n_def)
    show ?thesis
    proof (cases "map_of (fst oq) n_ind")
      case None
      with Cons.prems(1) ok True have *:
        "holonomic_expand P obsmap n_curr ind closed_set ms
           (AList.update n_ind n (fst oq), heappush (snd oq) (hcost n, n_ind)) = Inr oq'"
        by (simp add: Let_def n_def [symmetric] n_ind_def [symmetric])
      have "oq_inv P obsmap g closed_set
          (AList.update n_ind n (fst oq), heappush (snd oq) (hcost n, n_ind))"
        using Cons.prems(2) None True en by (intro oq_inv_insert) auto
      from Cons.IH [OF * this Cons.prems(3)] show ?thesis .
    next
      case (Some old)
      show ?thesis
      proof (cases "hcost old > hcost n")
        case gt: True
        with Cons.prems(1) ok True Some have *:
          "holonomic_expand P obsmap n_curr ind closed_set ms
             (AList.update n_ind (old\<lparr>hcost := hcost n, hpind := ind\<rparr>) (fst oq), snd oq) = Inr oq'"
          by (simp add: Let_def n_def [symmetric] n_ind_def [symmetric])
        from Cons.prems(2) Some have eo: "entry_ok P obsmap g n_ind old"
          by (simp add: oq_inv_def entries_ok_def)
        have pos: "0 \<le> hcost n" using uc Cons.prems(3) by (simp add: n_def)
        have "entry_ok P obsmap g n_ind (old\<lparr>hcost := hcost n, hpind := ind\<rparr>)"
          using eo gt pos
          by (auto simp: entry_ok_def check_holonomic_node_def calc_holonomic_index_def)
        with Cons.prems(2) Some have
          "oq_inv P obsmap g closed_set
             (AList.update n_ind (old\<lparr>hcost := hcost n, hpind := ind\<rparr>) (fst oq), snd oq)"
          by (intro oq_inv_lower) auto
        from Cons.IH [OF * this Cons.prems(3)] show ?thesis .
      next
        case le: False
        with Cons.prems(1) ok True Some have
          "holonomic_expand P obsmap n_curr ind closed_set ms oq = Inr oq'"
          by (simp add: Let_def n_def [symmetric] n_ind_def [symmetric])
        from Cons.IH [OF this Cons.prems(2,3)] show ?thesis .
      qed
    qed
  qed
qed

lemma update_new_key: "k \<notin> fst ` set al \<Longrightarrow> AList.update k v al = al @ [(k, v)]"
  by (induction al) auto

lemma heap_min_mem: "heap_min m es \<in> set (m # es)"
  by (induction es arbitrary: m) (auto split: if_splits)

lemma heappop_Inr:
  "heappop q = Inr (m, q') \<Longrightarrow> m \<in> set q \<and> q' = remove1 m q"
  using heap_min_mem by (auto simp: heappop_def Let_def split: list.splits)

lemma heappop_nonempty: "q \<noteq> [] \<Longrightarrow> \<exists>m q'. heappop q = Inr (m, q')"
  by (cases q) (simp_all add: heappop_def Let_def)

lemma remove1_keys:
  "distinct (map snd q) \<Longrightarrow> m \<in> set q \<Longrightarrow>
   snd ` set (remove1 m q) = snd ` set q - {snd m} \<and> distinct (map snd (remove1 m q))"
proof (induction q)
  case Nil
  then show ?case by simp
next
  case (Cons e q)
  show ?case
  proof (cases "m = e")
    case True
    with Cons.prems show ?thesis by auto
  next
    case False
    with Cons.prems have m: "m \<in> set q" and d: "distinct (map snd q)"
      and e: "snd e \<notin> snd ` set q" by auto
    from Cons.IH [OF d m] have
      ih: "snd ` set (remove1 m q) = snd ` set q - {snd m}" "distinct (map snd (remove1 m q))"
      by auto
    from m e have ne: "snd e \<noteq> snd m" by auto
    show ?thesis using False ih e ne by auto
  qed
qed

lemma holonomic_iter_inv:
  assumes "hinv P obsmap g st" and "holonomic_iter P obsmap st = Inr st'"
  shows "hinv P obsmap g st'"
    and "\<exists>ind n. ind \<notin> fst ` set (h_closed st) \<and> map_of (h_open st) ind = Some n
           \<and> ind \<in> snd ` set (h_queue st)
           \<and> h_closed st' = h_closed st @ [(ind, n)]"
proof -
  from assms(2) obtain popped q1 where pop: "heappop (h_queue st) = Inr (popped, q1)"
    by (auto simp: holonomic_iter_def split: sum.splits)
  define ind where "ind = snd popped"
  from assms(2) pop obtain n_curr where cur: "map_of (h_open st) ind = Some n_curr"
    by (auto simp: holonomic_iter_def Let_def ind_def split: option.splits)
  define closed1 where "closed1 = AList.update ind n_curr (h_closed st)"
  define open1 where "open1 = AList.delete ind (h_open st)"
  from assms(2) pop cur obtain oq where
    ex: "holonomic_expand P obsmap n_curr ind closed1 get_motion (open1, q1) = Inr oq"
    and st': "st' = \<lparr>h_open = fst oq, h_closed = closed1, h_queue = snd oq\<rparr>"
    by (auto simp: holonomic_iter_def Let_def ind_def [symmetric] closed1_def open1_def
        split: sum.splits)
  from assms(1) have
    d_open: "distinct (map fst (h_open st))" and d_q: "distinct (map snd (h_queue st))"
    and kq: "snd ` set (h_queue st) = fst ` set (h_open st)"
    and disj: "fst ` set (h_open st) \<inter> fst ` set (h_closed st) = {}"
    and e_open: "entries_ok P obsmap g (h_open st)"
    and d_closed: "distinct (map fst (h_closed st))"
    and e_closed: "entries_ok P obsmap g (h_closed st)"
    by (simp_all add: hinv_def oq_inv_def)
  from heappop_Inr [OF pop] have pm: "popped \<in> set (h_queue st)"
    and q1: "q1 = remove1 popped (h_queue st)" by auto
  from remove1_keys [OF d_q pm] have
    kq1: "snd ` set q1 = snd ` set (h_queue st) - {ind}" and d_q1: "distinct (map snd q1)"
    by (auto simp: q1 ind_def)
  have ind_open: "ind \<in> fst ` set (h_open st)" using cur by (rule map_of_keys)
  with disj have ind_closed: "ind \<notin> fst ` set (h_closed st)" by auto
  have e_cur: "entry_ok P obsmap g ind n_curr" using e_open cur by (simp add: entries_ok_def)
  have c1: "closed1 = h_closed st @ [(ind, n_curr)]"
    using ind_closed by (simp add: closed1_def update_new_key)
  have inv1: "oq_inv P obsmap g closed1 (open1, q1)"
    using d_open d_q1 kq1 kq disj e_open ind_closed
    by (auto simp: oq_inv_def open1_def closed1_def keys_delete keys_update distinct_delete
        entries_ok_delete)
  have pos: "0 \<le> hcost n_curr" using e_cur by (simp add: entry_ok_def)
  from holonomic_expand_inv [OF ex inv1 pos] have "oq_inv P obsmap g closed1 oq" .
  moreover have "distinct (map fst closed1)" using d_closed by (simp add: closed1_def distinct_update)
  moreover have "entries_ok P obsmap g closed1"
    using e_closed e_cur by (simp add: closed1_def entries_ok_update)
  ultimately show "hinv P obsmap g st'" by (simp add: hinv_def st')
  have "ind \<in> snd ` set (h_queue st)" using pm by (auto simp: ind_def)
  then show "\<exists>ind n. ind \<notin> fst ` set (h_closed st) \<and> map_of (h_open st) ind = Some n
           \<and> ind \<in> snd ` set (h_queue st)
           \<and> h_closed st' = h_closed st @ [(ind, n)]"
    using ind_closed cur c1 by (auto simp: st')
qed

lemma holonomic_loop_inv:
  "hinv P obsmap g st \<Longrightarrow> holonomic_loop P obsmap st = Inr closed_set \<Longrightarrow>
   distinct (map fst closed_set) \<and> entries_ok P obsmap g closed_set
   \<and> set (h_closed st) \<subseteq> set closed_set"
proof (induction P obsmap st rule: holonomic_loop.induct)
  case (1 P obsmap st)
  show ?case
  proof (cases "h_open st = []")
    case True
    with "1.prems" show ?thesis by (simp add: holonomic_loop.simps hinv_def)
  next
    case False
    with "1.prems"(2) obtain st' where it: "holonomic_iter P obsmap st = Inr st'"
      and lp: "holonomic_loop P obsmap st' = Inr closed_set"
      by (auto simp: holonomic_loop.simps [of P obsmap st] split: sum.splits)
    from holonomic_iter_inv [OF "1.prems"(1) it] have inv': "hinv P obsmap g st'"
      and sub: "set (h_closed st) \<subseteq> set (h_closed st')" by auto
    from "1.IH" [OF False it inv' lp] sub show ?thesis by auto
  qed
qed

subsection \<open>The heuristic map\<close>

lemma hmap_store_nth:
  assumes "hmap_store hmap i j v = Inr hmap'" and "0 \<le> i" and "0 \<le> j"
  shows "map length hmap' = map length hmap"
    and "nat i < length hmap \<and> nat j < length (hmap ! nat i)"
    and "i' < length hmap \<Longrightarrow> j' < length (hmap ! i') \<Longrightarrow>
         hmap' ! i' ! j' = (if (int i', int j') = (i, j) then v else hmap ! i' ! j')"
proof -
  from assms have a: "nat i < length hmap" and b: "nat j < length (hmap ! nat i)"
    and h: "hmap' = hmap[nat i := (hmap ! nat i)[nat j := v]]"
    by (auto simp: hmap_store_def py_position_def ebind_def split: if_splits)
  show "map length hmap' = map length hmap"
    by (simp add: h map_update list_update_same_conv a)
  show "nat i < length hmap \<and> nat j < length (hmap ! nat i)" using a b by simp
  assume "i' < length hmap" "j' < length (hmap ! i')"
  then show "hmap' ! i' ! j' = (if (int i', int j') = (i, j) then v else hmap ! i' ! j')"
    using assms(2,3) a b by (cases "i' = nat i"; cases "j' = nat j") (auto simp: h)
qed

lemma map_length_nth:
  "map length a = map length b \<Longrightarrow> length a = length b \<and> (\<forall>i < length b. length (a ! i) = length (b ! i))"
  by (metis length_map nth_map)

lemma hmap_fill_shape:
  "hmap_fill P ns hmap = Inr hmap' \<Longrightarrow>
   \<forall>n \<in> set ns. 0 \<le> fst (hcell P n) \<and> 0 \<le> snd (hcell P n) \<Longrightarrow>
   map length hmap' = map length hmap"
proof (induction ns arbitrary: hmap)
  case Nil
  then show ?case by simp
next
  case (Cons n ns)
  from Cons.prems(1) obtain h1 where
    st: "hmap_store hmap (hx n - minx P) (hy n - miny P) (Fin (hcost n)) = Inr h1"
    and rest: "hmap_fill P ns h1 = Inr hmap'"
    by (auto simp: ebind_def split: sum.splits)
  from Cons.prems(2) have nn: "0 \<le> hx n - minx P" "0 \<le> hy n - miny P"
    by (simp_all add: hcell_def)
  from Cons.IH [OF rest] Cons.prems(2) hmap_store_nth(1) [OF st nn] show ?case by simp
qed

lemma hmap_fill_untouched:
  "hmap_fill P ns hmap = Inr hmap' \<Longrightarrow>
   \<forall>n \<in> set ns. 0 \<le> fst (hcell P n) \<and> 0 \<le> snd (hcell P n) \<Longrightarrow>
   i < length hmap \<Longrightarrow> j < length (hmap ! i) \<Longrightarrow>
   \<forall>n \<in> set ns. hcell P n \<noteq> (int i, int j) \<Longrightarrow>
   hmap' ! i ! j = hmap ! i ! j"
proof (induction ns arbitrary: hmap)
  case Nil
  then show ?case by simp
next
  case (Cons n ns)
  from Cons.prems(1) obtain h1 where
    st: "hmap_store hmap (hx n - minx P) (hy n - miny P) (Fin (hcost n)) = Inr h1"
    and rest: "hmap_fill P ns h1 = Inr hmap'"
    by (auto simp: ebind_def split: sum.splits)
  from Cons.prems(2) have nn: "0 \<le> hx n - minx P" "0 \<le> hy n - miny P"
    by (simp_all add: hcell_def)
  note sh = map_length_nth [OF hmap_store_nth(1) [OF st nn]]
  have i1: "i < length h1" and j1: "j < length (h1 ! i)"
    using sh Cons.prems(3,4) by auto
  have "hmap' ! i ! j = h1 ! i ! j"
    using Cons.IH [OF rest _ i1 j1] Cons.prems(2,5) by simp
  also have "h1 ! i ! j = hmap ! i ! j"
    using hmap_store_nth(3) [OF st nn Cons.prems(3,4)] Cons.prems(5)
    by (auto simp: hcell_def)
  finally show ?case .
qed

lemma hmap_fill_written:
  "hmap_fill P ns hmap = Inr hmap' \<Longrightarrow>
   \<forall>n \<in> set ns. 0 \<le> fst (hcell P n) \<and> 0 \<le> snd (hcell P n) \<Longrightarrow>
   distinct (map (hcell P) ns) \<Longrightarrow> n \<in> set ns \<Longrightarrow>
   hmap' ! nat (fst (hcell P n)) ! nat (snd (hcell P n)) = Fin (hcost n)"
proof (induction ns arbitrary: hmap)
  case Nil
  then show ?case by simp
next
  case (Cons m ns)
  from Cons.prems(1) obtain h1 where
    st: "hmap_store hmap (hx m - minx P) (hy m - miny P) (Fin (hcost m)) = Inr h1"
    and rest: "hmap_fill P ns h1 = Inr hmap'"
    by (auto simp: ebind_def split: sum.splits)
  from Cons.prems(2) have nn: "0 \<le> hx m - minx P" "0 \<le> hy m - miny P"
    and nns: "\<forall>n \<in> set ns. 0 \<le> fst (hcell P n) \<and> 0 \<le> snd (hcell P n)"
    by (simp_all add: hcell_def)
  note sh = map_length_nth [OF hmap_store_nth(1) [OF st nn]]
  note rng = hmap_store_nth(2) [OF st nn]
  show ?case
  proof (cases "n \<in> set ns")
    case True
    with Cons.IH [OF rest nns] Cons.prems(3) show ?thesis by simp
  next
    case False
    with Cons.prems(4) have nm: "n = m" by simp
    define a where "a = nat (hx m - minx P)"
    define b where "b = nat (hy m - miny P)"
    have cell: "hcell P m = (int a, int b)" using nn by (simp add: hcell_def a_def b_def)
    have a1: "a < length h1" and b1: "b < length (h1 ! a)"
      using sh rng by (auto simp: a_def b_def)
    have other: "\<forall>n \<in> set ns. hcell P n \<noteq> (int a, int b)"
      using Cons.prems(3) cell by (metis distinct.simps(2) image_eqI list.simps(9) set_map)
    have "hmap' ! a ! b = h1 ! a ! b"
      by (rule hmap_fill_untouched [OF rest nns a1 b1 other])
    also have "h1 ! a ! b = Fin (hcost m)"
      using hmap_store_nth(3) [OF st nn, of a b] rng nn by (simp add: a_def b_def)
    finally show ?thesis by (simp add: nm hcell_def a_def b_def)
  qed
qed

lemma hmap_fill_values:
  "hmap_fill P ns hmap = Inr hmap' \<Longrightarrow>
   \<forall>n \<in> set ns. 0 \<le> fst (hcell P n) \<and> 0 \<le> snd (hcell P n) \<Longrightarrow>
   i < length hmap \<Longrightarrow> j < length (hmap ! i) \<Longrightarrow>
   hmap' ! i ! j = hmap ! i ! j \<or> (\<exists>n \<in> set ns. hmap' ! i ! j = Fin (hcost n))"
proof (induction ns arbitrary: hmap)
  case Nil
  then show ?case by simp
next
  case (Cons m ns)
  from Cons.prems(1) obtain h1 where
    st: "hmap_store hmap (hx m - minx P) (hy m - miny P) (Fin (hcost m)) = Inr h1"
    and rest: "hmap_fill P ns h1 = Inr hmap'"
    by (auto simp: ebind_def split: sum.splits)
  from Cons.prems(2) have nn: "0 \<le> hx m - minx P" "0 \<le> hy m - miny P"
    and nns: "\<forall>n \<in> set ns. 0 \<le> fst (hcell P n) \<and> 0 \<le> snd (hcell P n)"
    by (simp_all add: hcell_def)
  note sh = map_length_nth [OF hmap_store_nth(1) [OF st nn]]
  have i1: "i < length h1" and j1: "j < length (h1 ! i)"
    using sh Cons.prems(3,4) by auto
  from Cons.IH [OF rest nns i1 j1] have
    "hmap' ! i ! j = h1 ! i ! j \<or> (\<exists>n \<in> set ns. hmap' ! i ! j = Fin (hcost n))" .
  moreover have "h1 ! i ! j = hmap ! i ! j \<or> h1 ! i ! j = Fin (hcost m)"
    using hmap_store_nth(3) [OF st nn Cons.prems(3,4)] by auto
  ultimately show ?case by auto
qed

lemma hinv_init:
  "hcost g = 0 \<Longrightarrow> hinv P obsmap g (holonomic_init g P)"
  by (simp add: hinv_def oq_inv_def holonomic_init_def heappush_def entries_ok_def entry_ok_def)

lemma holonomic_goal_cost: "holonomic_goal n P = Inr g \<Longrightarrow> hcost g = 0"
  by (auto simp: holonomic_goal_def ebind_def split: sum.splits)

lemma holonomic_loop_init:
  assumes "hcost g = 0" and "holonomic_loop P obsmap (holonomic_init g P) = Inr closed_set"
  shows "distinct (map fst closed_set)" and "entries_ok P obsmap g closed_set"
    and "(calc_holonomic_index g P, g) \<in> set closed_set"
proof -
  note inv = hinv_init [OF assms(1), of P obsmap]
  from holonomic_loop_inv [OF inv assms(2)]
  show "distinct (map fst closed_set)" and "entries_ok P obsmap g closed_set" by auto
  have ne: "h_open (holonomic_init g P) \<noteq> []" by (simp add: holonomic_init_def)
  with assms(2) obtain st' where it: "holonomic_iter P obsmap (holonomic_init g P) = Inr st'"
    and lp: "holonomic_loop P obsmap st' = Inr closed_set"
    by (auto simp: holonomic_loop.simps [of P obsmap "holonomic_init g P"] split: sum.splits)
  from holonomic_iter_inv [OF inv it] obtain ind n where
    inv': "hinv P obsmap g st'"
    and m: "map_of (h_open (holonomic_init g P)) ind = Some n"
    and c: "h_closed st' = h_closed (holonomic_init g P) @ [(ind, n)]"
    by blast
  from m have "ind = calc_holonomic_index g P \<and> n = g"
    by (auto simp: holonomic_init_def split: if_splits)
  with c have "(calc_holonomic_index g P, g) \<in> set (h_closed st')" by simp
  with holonomic_loop_inv [OF inv' lp]
  show "(calc_holonomic_index g P, g) \<in> set closed_set" by auto
qed

lemma distinct_map_outer: "distinct (map (\<lambda>v. f (h v)) vs) \<Longrightarrow> distinct (map h vs)"
  by (induction vs) auto

lemma closed_cells_distinct:
  assumes "distinct (map fst closed_set)" and "entries_ok P obsmap g closed_set"
  shows "distinct (map (hcell P) (map snd closed_set))"
proof -
  have "fst e = (\<lambda>c. snd c * xw P + fst c) (hcell P (snd e))" if "e \<in> set closed_set" for e
  proof -
    from that assms(1) have "map_of closed_set (fst e) = Some (snd e)" by simp
    with assms(2) show ?thesis
      by (simp add: entries_ok_def entry_ok_def calc_holonomic_index_def hcell_def)
  qed
  then have "map fst closed_set
      = map (\<lambda>e. (\<lambda>c. snd c * xw P + fst c) (hcell P (snd e))) closed_set"
    by (intro map_cong) auto
  with assms(1) have "distinct (map (\<lambda>e. (\<lambda>c. snd c * xw P + fst c) (hcell P (snd e))) closed_set)"
    by simp
  then have "distinct (map (\<lambda>e. hcell P (snd e)) closed_set)"
    by (rule distinct_map_outer)
  then show ?thesis by (simp add: comp_def)
qed

lemma closed_entry_cases:
  assumes "distinct (map fst closed_set)" and "entries_ok P obsmap g closed_set"
    and "m \<in> snd ` set closed_set"
  shows "0 \<le> hcost m"
    and "hcell P m = hcell P g \<and> hcost m = 0 \<or> check_holonomic_node m P obsmap = Inr True"
proof -
  from assms(3) obtain k where "(k, m) \<in> set closed_set" by auto
  with assms(1) have "map_of closed_set k = Some m" by simp
  with assms(2) have e: "entry_ok P obsmap g k m" by (simp add: entries_ok_def)
  then show "0 \<le> hcost m" by (simp add: entry_ok_def)
  from e show "hcell P m = hcell P g \<and> hcost m = 0 \<or> check_holonomic_node m P obsmap = Inr True"
    by (auto simp: entry_ok_def hcell_def)
qed

lemma check_holonomic_node_TrueD:
  assumes "check_holonomic_node m P obsmap = Inr True"
  shows "0 < fst (hcell P m)" and "0 < snd (hcell P m)"
    and "\<not> obsmap ! nat (fst (hcell P m)) ! nat (snd (hcell P m))"
  using assms
  by (auto simp: check_holonomic_node_def hcell_def ebind_def py_index_def
      split: if_splits sum.splits)

lemma py_round_1: "py_round 1 = 1"
  using py_round_of_int [of 1] by simp

lemma lane_goal_eval: "holonomic_goal lane_goal lane_para = Inr lane_holonomic_goal"
  by (simp add: holonomic_goal_def lane_goal_def lane_para_def py_last_def py_div_def ebind_def
      py_round_numeral py_round_1 lane_holonomic_goal_def)

lemma upt_0_4: "[0..<4] = [0, 1, 2, 3]"
  by (simp add: upt_rec)

lemma nat_4: "nat 4 = 4" "nat 2 = 2" by simp_all

lemma lane_obsmap_eval: "obstacles_map lane_para RADIUS = Inr lane_obsmap"
  by (simp add: RADIUS_def obstacles_map_def lane_para_def py_div_def ebind_def py_round_numeral py_round_0
      upt_0_4 upt_0_2 hypot_le_iff lane_obsmap_def power2_eq_square
      del: le_divide_eq_numeral1)

lemma u_cost_axis: "u_cost (- 1, 0) = 1" "u_cost (1, 0) = 1"
  by (simp_all add: u_cost_def hypot_def)

lemma lane_loop_eval:
  "holonomic_loop lane_para lane_obsmap (holonomic_init lane_holonomic_goal lane_para)
     = Inr [(6, lane_holonomic_goal),
            (5, \<lparr>hx = 1, hy = 1, hcost = 1, hpind = 6\<rparr>),
            (7, \<lparr>hx = 3, hy = 1, hcost = 1, hpind = 6\<rparr>)]"
  by (simp add: holonomic_loop.simps holonomic_init_def holonomic_iter_def heappop_def
      heappush_def tuple_less_def get_motion_def check_holonomic_node_def calc_holonomic_index_def
      lane_para_def lane_obsmap_def lane_holonomic_goal_def py_index_def ebind_def Let_def
      u_cost_axis)

lemma lane_closed_eval:
  "holonomic_closed_set lane_goal lane_para RADIUS
     = Inr [(6, lane_holonomic_goal),
            (5, \<lparr>hx = 1, hy = 1, hcost = 1, hpind = 6\<rparr>),
            (7, \<lparr>hx = 3, hy = 1, hcost = 1, hpind = 6\<rparr>)]"
  by (simp add: holonomic_closed_set_def lane_goal_eval lane_obsmap_eval lane_loop_eval ebind_def)

lemma lane_hmap_eval:
  "calc_holonomic_heuristic_with_obstacle lane_goal lane_para RADIUS = Inr lane_hmap"
  unfolding calc_holonomic_heuristic_with_obstacle_def lane_closed_eval
  by (simp add: ebind_def hmap_store_def py_position_def lane_para_def lane_holonomic_goal_def
      lane_hmap_def numeral_eq_Suc)

subsection \<open>The lane grid: a successor, and a goal off the grid\<close>

lemma py_round_12_5: "py_round (12 / 5) = 2"
proof -
  have "\<lfloor>12 / 5 :: real\<rfloor> = 2" by linarith
  then show ?thesis by (simp add: py_round_def Let_def)
qed

lemma py_round_neg_1: "py_round (- 1) = - 1"
  using py_round_of_int [of "- 1"] by simp

lemma lane_child_index_ok:
  "is_index_ok 2 1 [11 / 5, 12 / 5] [1, 1] [0, 0] lane_para = Inr True"
  by (simp add: is_index_ok_def lane_para_def py_range_step_def COLLISION_CHECK_STEP_def upt_0_2
      ebind_def py_nth_def is_collision_def footprint_centre_def collision_radius_def
      query_ball_point_def hypot_le_iff RF_def RB_def W_def power2_eq_square
      del: le_divide_eq_numeral1)

lemma lane_child_eval:
  "calc_next_node lane_goal 110 0 1 lane_para = Inr (Some lane_child)"
proof -
  have p: "xyreso lane_para = 1" "yawreso lane_para = pi / 12"
    by (simp_all add: lane_para_def)
  show ?thesis
    unfolding calc_next_node_def Let_def motion_lists
    by (simp add: lane_goal_def py_last_def ebind_def pi_2_pi_0 MOVE_STEP_def py_div_def p
       py_round_12_5 py_round_1 py_round_0 lane_child_index_ok XY_RESO_def lane_child_def)
qed

lemma off_goal_eval: "holonomic_goal off_goal lane_para = Inr off_holonomic_goal"
  by (simp add: holonomic_goal_def off_goal_def lane_para_def py_last_def py_div_def ebind_def
      py_round_neg_1 py_round_1 off_holonomic_goal_def)

text \<open>The goal node is popped and closed under the key \<open>(1 - 0) * 4 + (-1 - 0) = 3\<close>;
  \<open>check_holonomic_node\<close> rejects its eight neighbours, whose \<open>x\<close> is at most \<open>minx\<close>.\<close>

lemma off_loop_eval:
  "holonomic_loop lane_para lane_obsmap (holonomic_init off_holonomic_goal lane_para)
     = Inr [(3, off_holonomic_goal)]"
  by (simp add: holonomic_loop.simps holonomic_init_def holonomic_iter_def heappop_def
      heappush_def tuple_less_def get_motion_def check_holonomic_node_def calc_holonomic_index_def
      lane_para_def lane_obsmap_def off_holonomic_goal_def py_index_def ebind_def Let_def
      u_cost_axis)

lemma off_closed_eval:
  "holonomic_closed_set off_goal lane_para RADIUS = Inr [(3, off_holonomic_goal)]"
  by (simp add: holonomic_closed_set_def off_goal_eval lane_obsmap_eval off_loop_eval ebind_def)

lemma off_hmap_eval:
  "calc_holonomic_heuristic_with_obstacle off_goal lane_para RADIUS = Inr off_hmap"
  unfolding calc_holonomic_heuristic_with_obstacle_def off_closed_eval
  by (simp add: ebind_def hmap_store_def py_position_def lane_para_def off_holonomic_goal_def
      off_hmap_def numeral_eq_Suc)

section \<open>Hybrid A* search\<close>

definition N_STEER :: real where "N_STEER = 10.0"
definition MAX_ANGULAR_VELOCITY :: real where "MAX_ANGULAR_VELOCITY = 0.5"
definition MIN_ANGULAR_VELOCITY :: real where "MIN_ANGULAR_VELOCITY = - 0.5"
definition MAX_CURVATURE_RADIUS :: real where "MAX_CURVATURE_RADIUS = 0.5"

text \<open>\<open>np.arange(start, stop, step)\<close> over the reals.\<close>

definition np_arange :: "real \<Rightarrow> real \<Rightarrow> real \<Rightarrow> real list" where
  "np_arange start stop step =
     map (\<lambda>i. start + real i * step) [0..<nat \<lceil>(stop - start) / step\<rceil>]"

text \<open>\<open>calc_motion_set\<close>, as the list of the pairs \<open>(steer_set[i], direc_set[i])\<close>.\<close>

definition calc_motion_set :: "(real \<times> real) list" where
  "calc_motion_set =
     (let angular_velocities =
            np_arange MIN_ANGULAR_VELOCITY MAX_ANGULAR_VELOCITY
              ((MAX_ANGULAR_VELOCITY - MIN_ANGULAR_VELOCITY) / N_STEER);
          steer0 = angular_velocities @ [0] @ map uminus angular_velocities;
          direc = replicate (length steer0) 1 @ replicate (length steer0) (- 1);
          steer_set = steer0 @ steer0
      in zip steer_set direc)"

text \<open>The ordering of queue priorities: \<open>np.inf\<close> is above every number.\<close>

fun pyfloat_less :: "pyfloat \<Rightarrow> pyfloat \<Rightarrow> bool" where
  "pyfloat_less (Fin a) (Fin b) \<longleftrightarrow> a < b"
| "pyfloat_less (Fin a) PInf \<longleftrightarrow> True"
| "pyfloat_less PInf b \<longleftrightarrow> False"

text \<open>\<open>QueuePrior\<close> wraps the third-party \<open>heapdict\<close>: \<open>put\<close> sets the priority of an
  item (replacing an earlier entry of the same item), \<open>get\<close> removes and returns an item of
  least priority and raises IndexError when the queue is empty. The queue is kept as the list
  of its entries in insertion order; among entries of equal priority \<open>get\<close> takes the one
  inserted first, which is how the specification breaks ties.\<close>

definition qp_put :: "('k \<times> pyfloat) list \<Rightarrow> 'k \<Rightarrow> pyfloat \<Rightarrow> ('k \<times> pyfloat) list" where
  "qp_put q item priority = AList.delete item q @ [(item, priority)]"

fun qp_min :: "'k \<times> pyfloat \<Rightarrow> ('k \<times> pyfloat) list \<Rightarrow> 'k \<times> pyfloat" where
  "qp_min m [] = m"
| "qp_min m (e # es) = qp_min (if pyfloat_less (snd e) (snd m) then e else m) es"

definition qp_get :: "('k \<times> pyfloat) list \<Rightarrow> py_error + 'k \<times> ('k \<times> pyfloat) list" where
  "qp_get q =
     (case q of [] \<Rightarrow> Inl IndexError
      | e # es \<Rightarrow> (let m = qp_min e es in Inr (fst m, remove1 m q)))"

text \<open>\<open>calc_hybrid_cost\<close>: \<open>node.cost + C.H_COST * hmap[..][..]\<close>; the positive multiple
  of \<open>np.inf\<close> and its sum with a number are \<open>np.inf\<close>.\<close>

definition calc_hybrid_cost :: "node \<Rightarrow> pyfloat list list \<Rightarrow> para \<Rightarrow> py_error + pyfloat" where
  "calc_hybrid_cost n hmap P =
     ebind (py_index hmap (xind n - minx P)) (\<lambda>row.
     ebind (py_index row (yind n - miny P)) (\<lambda>h.
       Inr (case h of Fin v \<Rightarrow> Fin (cost n + H_COST * v) | PInf \<Rightarrow> PInf)))"

definition is_same_grid :: "node \<Rightarrow> node \<Rightarrow> bool" where
  "is_same_grid node1 node2 \<longleftrightarrow>
     (if xind node1 \<noteq> xind node2 \<or> yind node1 \<noteq> yind node2 \<or> yawind node1 \<noteq> yawind node2
      then False else True)"

subsection \<open>Analytic expansion\<close>

text \<open>The external function \<open>rs.calc_all_paths(sx, sy, syaw, gx, gy, gyaw, maxc, step_size)\<close>
  of the Reeds-Shepp module is a parameter of the model.\<close>

type_synonym rs_calc_all_paths =
  "real \<Rightarrow> real \<Rightarrow> real \<Rightarrow> real \<Rightarrow> real \<Rightarrow> real \<Rightarrow> real \<Rightarrow> real \<Rightarrow> rspath list"

lemma qp_min_mem: "qp_min m es \<in> set (m # es)"
  by (induction es arbitrary: m) (auto split: if_splits)

lemma qp_get_Inr: "qp_get q = Inr (k, q') \<Longrightarrow> \<exists>m \<in> set q. k = fst m \<and> q' = remove1 m q"
proof (cases q)
  case Nil
  assume "qp_get q = Inr (k, q')"
  with Nil show ?thesis by (simp add: qp_get_def)
next
  case (Cons e es)
  assume "qp_get q = Inr (k, q')"
  with Cons have "k = fst (qp_min e es)" "q' = remove1 (qp_min e es) q"
    by (simp_all add: qp_get_def Let_def)
  moreover have "qp_min e es \<in> set q" using qp_min_mem [of e es] Cons by simp
  ultimately show ?thesis by blast
qed

lemma qp_get_shorter: "qp_get q = Inr (k, q') \<Longrightarrow> length q' < length q"
proof -
  assume "qp_get q = Inr (k, q')"
  from qp_get_Inr [OF this] obtain m where m: "m \<in> set q" "q' = remove1 m q" by auto
  then have "q \<noteq> []" by auto
  with m show ?thesis by (simp add: length_remove1)
qed

text \<open>The loop \<open>while not pq.empty()\<close> of \<open>analystic_expantion\<close>; the queue holds the
  positions of the paths in \<open>paths\<close> (the path objects are the keys of the heapdict).\<close>

function first_free_path ::
  "para \<Rightarrow> rspath list \<Rightarrow> (nat \<times> pyfloat) list \<Rightarrow> py_error + rspath option" where
  "first_free_path P paths pq =
     (if pq = [] then Inr None
      else case qp_get pq of
             Inl e \<Rightarrow> Inl e
           | Inr (k, pq') \<Rightarrow>
               (let p = paths ! k;
                    ind = py_range_step (length (rs_x p)) COLLISION_CHECK_STEP
                in case py_pick (rs_x p) ind of
                     Inl e \<Rightarrow> Inl e
                   | Inr pathx \<Rightarrow>
                       (case py_pick (rs_y p) ind of
                          Inl e \<Rightarrow> Inl e
                        | Inr pathy \<Rightarrow>
                            (case py_pick (rs_yaw p) ind of
                               Inl e \<Rightarrow> Inl e
                             | Inr pathyaw \<Rightarrow>
                                 (case is_collision pathx pathy pathyaw P of
                                    Inl e \<Rightarrow> Inl e
                                  | Inr hit \<Rightarrow>
                                      if \<not> hit then Inr (Some p)
                                      else first_free_path P paths pq')))))"
  by pat_completeness auto
termination
  by (relation "measure (\<lambda>(P, paths, pq). length pq)") (auto dest: qp_get_shorter)

declare first_free_path.simps [simp del]

definition analystic_expantion ::
  "rs_calc_all_paths \<Rightarrow> node \<Rightarrow> node \<Rightarrow> para \<Rightarrow> py_error + rspath option" where
  "analystic_expantion rs n ngoal P =
     ebind (py_last (node_x n)) (\<lambda>sx.
     ebind (py_last (node_y n)) (\<lambda>sy.
     ebind (py_last (node_yaw n)) (\<lambda>syaw.
     ebind (py_last (node_x ngoal)) (\<lambda>gx.
     ebind (py_last (node_y ngoal)) (\<lambda>gy.
     ebind (py_last (node_yaw ngoal)) (\<lambda>gyaw.
       (let paths = rs sx sy syaw gx gy gyaw MAX_CURVATURE_RADIUS MOVE_STEP
        in if paths = [] then Inr None
           else first_free_path P paths
                  (fold (\<lambda>k pq. qp_put pq k (Fin (calc_rs_path_cost (paths ! k))))
                     [0..<length paths] []))))))))"

text \<open>\<open>update_node_with_analystic_expantion\<close>: \<open>Inr None\<close> is \<open>(False, None)\<close>,
  \<open>Inr (Some fpath)\<close> is \<open>(True, fpath)\<close>. The slice \<open>xs[1:-1]\<close> is \<open>butlast (tl xs)\<close>.\<close>

definition update_node_with_analystic_expantion ::
  "rs_calc_all_paths \<Rightarrow> node \<Rightarrow> node \<Rightarrow> para \<Rightarrow> py_error + node option" where
  "update_node_with_analystic_expantion rs n_curr ngoal P =
     ebind (analystic_expantion rs n_curr ngoal P) (\<lambda>found.
       case found of
         None \<Rightarrow> Inr None
       | Some p \<Rightarrow>
           (let fx = butlast (tl (rs_x p));
                fy = butlast (tl (rs_y p));
                fyaw = butlast (tl (rs_yaw p));
                fd = butlast (tl (rs_directions p));
                fcost = cost n_curr + calc_rs_path_cost p;
                fpind = calc_index n_curr P;
                fsteer = 0
            in Inr (Some \<lparr>xind = xind n_curr, yind = yind n_curr, yawind = yawind n_curr,
                           direction = direction n_curr,
                           node_x = fx, node_y = fy, node_yaw = fyaw, directions = fd,
                           steer = fsteer, cost = fcost, pind = fpind\<rparr>)))"

subsection \<open>The main loop\<close>

record hybrid_state =
  hs_open :: "(int \<times> node) list"
  hs_closed :: "(int \<times> node) list"
  hs_queue :: "(int \<times> pyfloat) list"

text \<open>The loop \<open>for i in range(len(steer_set))\<close> over the remaining primitives; it changes
  \<open>open_set\<close> and \<open>qp\<close> only.\<close>

fun hybrid_expand ::
  "para \<Rightarrow> pyfloat list list \<Rightarrow> node \<Rightarrow> int \<Rightarrow> (int \<times> node) list \<Rightarrow> (real \<times> real) list
     \<Rightarrow> (int \<times> node) list \<times> (int \<times> pyfloat) list
     \<Rightarrow> py_error + (int \<times> node) list \<times> (int \<times> pyfloat) list" where
  "hybrid_expand P hmap n_curr ind cls [] oq = Inr oq"
| "hybrid_expand P hmap n_curr ind cls (ud # uds) oq =
     (case calc_next_node n_curr ind (fst ud) (snd ud) P of
        Inl e \<Rightarrow> Inl e
      | Inr None \<Rightarrow> hybrid_expand P hmap n_curr ind cls uds oq
      | Inr (Some n) \<Rightarrow>
          (let node_ind = calc_index n P
           in if node_ind \<in> fst ` set cls then hybrid_expand P hmap n_curr ind cls uds oq
              else
                (case map_of (fst oq) node_ind of
                   None \<Rightarrow>
                     (case calc_hybrid_cost n hmap P of
                        Inl e \<Rightarrow> Inl e
                      | Inr f \<Rightarrow>
                          hybrid_expand P hmap n_curr ind cls uds
                            (AList.update node_ind n (fst oq), qp_put (snd oq) node_ind f))
                 | Some old \<Rightarrow>
                     if cost old > cost n then
                       (case calc_hybrid_cost n hmap P of
                          Inl e \<Rightarrow> Inl e
                        | Inr f \<Rightarrow>
                            hybrid_expand P hmap n_curr ind cls uds
                              (AList.update node_ind n (fst oq), qp_put (snd oq) node_ind f))
                     else hybrid_expand P hmap n_curr ind cls uds oq)))"

text \<open>The outcome of one pass of the body of \<open>while True\<close> after the test of \<open>open_set\<close>:
  the \<open>break\<close> with the final node and the closed set, or the next state.\<close>

datatype iteration = Found node "(int \<times> node) list" | Continue hybrid_state

definition hybrid_iter ::
  "rs_calc_all_paths \<Rightarrow> para \<Rightarrow> pyfloat list list \<Rightarrow> node \<Rightarrow> hybrid_state
     \<Rightarrow> py_error + iteration" where
  "hybrid_iter rs P hmap ngoal st =
     (case qp_get (hs_queue st) of
        Inl e \<Rightarrow> Inl e
      | Inr (ind, q1) \<Rightarrow>
          (case map_of (hs_open st) ind of
             None \<Rightarrow> Inl KeyError
           | Some n_curr \<Rightarrow>
               (let closed1 = AList.update ind n_curr (hs_closed st);
                    open1 = AList.delete ind (hs_open st)
                in case update_node_with_analystic_expantion rs n_curr ngoal P of
                     Inl e \<Rightarrow> Inl e
                   | Inr (Some fpath) \<Rightarrow> Inr (Found fpath closed1)
                   | Inr None \<Rightarrow>
                       (case hybrid_expand P hmap n_curr ind closed1 calc_motion_set (open1, q1) of
                          Inl e \<Rightarrow> Inl e
                        | Inr oq \<Rightarrow>
                            Inr (Continue \<lparr>hs_open = fst oq, hs_closed = closed1,
                                           hs_queue = snd oq\<rparr>)))))"

text \<open>The keys of the lattice cells a successor can have: inside the grid, with the yaw
  index of an angle in \<open>(-\<pi>, \<pi>]\<close>.\<close>

definition yaw_indices :: "para \<Rightarrow> int set" where
  "yaw_indices P = {c. \<bar>real_of_int c\<bar> \<le> pi / \<bar>yawreso P\<bar> + 1}"

definition lattice_keys :: "para \<Rightarrow> int set" where
  "lattice_keys P =
     (\<lambda>(a, b, c). (c - minyaw P) * xw P * yw P + (b - miny P) * xw P + (a - minx P))
       ` ({minx P <..< maxx P} \<times> {miny P <..< maxy P} \<times> yaw_indices P)"

lemma finite_yaw_indices: "finite (yaw_indices P)"
proof -
  define B where "B = \<lceil>pi / \<bar>yawreso P\<bar> + 1\<rceil>"
  have "yaw_indices P \<subseteq> {- B .. B}"
  proof
    fix c assume "c \<in> yaw_indices P"
    then have "\<bar>real_of_int c\<bar> \<le> pi / \<bar>yawreso P\<bar> + 1" by (simp add: yaw_indices_def)
    also have "\<dots> \<le> of_int B" unfolding B_def by (rule le_of_int_ceiling)
    finally have "\<bar>c\<bar> \<le> B" by linarith
    then show "c \<in> {- B .. B}" by auto
  qed
  then show ?thesis by (rule finite_subset) simp
qed

lemma finite_lattice_keys: "finite (lattice_keys P)"
  by (simp add: lattice_keys_def finite_yaw_indices)

lemma py_round_close: "\<bar>real_of_int (py_round v) - v\<bar> \<le> 1"
proof -
  have "of_int \<lfloor>v\<rfloor> \<le> v" "v < of_int \<lfloor>v\<rfloor> + 1" by linarith+
  then show ?thesis by (auto simp: py_round_def Let_def)
qed

lemma calc_next_node_key:
  assumes "calc_next_node n_curr c_id u d P = Inr (Some child)"
  shows "calc_index child P \<in> lattice_keys P"
proof -
  note D = calc_next_node_SomeD [OF assms]
  define y where "y = last (node_yaw child)"
  have "y = pi_2_pi (pi_2_pi (last (node_yaw n_curr) + d * MOVE_STEP * u) + d * MOVE_STEP * u)"
    by (simp add: y_def D(1) successor_yaws_def)
  then have "\<bar>y\<bar> \<le> pi" using pi_2_pi_range [of "pi_2_pi (last (node_yaw n_curr) + d * MOVE_STEP * u) + d * MOVE_STEP * u"]
    by auto
  then have "\<bar>y / yawreso P\<bar> \<le> pi / \<bar>yawreso P\<bar>" by (simp add: divide_right_mono)
  moreover have "\<bar>real_of_int (py_round (y / yawreso P)) - y / yawreso P\<bar> \<le> 1"
    by (rule py_round_close)
  ultimately have "\<bar>real_of_int (yawind child)\<bar> \<le> pi / \<bar>yawreso P\<bar> + 1"
    unfolding D(12) y_def [symmetric] by linarith
  then have "yawind child \<in> yaw_indices P" by (simp add: yaw_indices_def)
  with D(8-11) show ?thesis
    unfolding lattice_keys_def calc_index_def
    by (intro image_eqI [where x = "(xind child, yind child, yawind child)"]) auto
qed

lemma hybrid_expand_ConsD:
  assumes "hybrid_expand P hmap n_curr ind cls (ud # uds) oq = Inr oq'"
  shows "hybrid_expand P hmap n_curr ind cls uds oq = Inr oq'
     \<or> (\<exists>n f. calc_next_node n_curr ind (fst ud) (snd ud) P = Inr (Some n)
            \<and> calc_index n P \<notin> fst ` set cls
            \<and> hybrid_expand P hmap n_curr ind cls uds
                 (AList.update (calc_index n P) n (fst oq), qp_put (snd oq) (calc_index n P) f)
                = Inr oq')"
proof (cases "calc_next_node n_curr ind (fst ud) (snd ud) P")
  case (Inl e)
  with assms show ?thesis by simp
next
  case (Inr r)
  show ?thesis
  proof (cases r)
    case None
    with assms Inr show ?thesis by simp
  next
    case (Some n)
    show ?thesis
    proof (cases "calc_index n P \<in> fst ` set cls")
      case True
      with assms Inr Some show ?thesis by (simp add: Let_def)
    next
      case False
      show ?thesis
      proof (cases "calc_hybrid_cost n hmap P")
        case hl: (Inl e)
        with assms Inr Some False show ?thesis
          by (cases "map_of (fst oq) (calc_index n P)") (simp_all add: Let_def split: if_splits)
      next
        case hr: (Inr f)
        with assms Inr Some False show ?thesis
          by (cases "map_of (fst oq) (calc_index n P)") (auto simp: Let_def split: if_splits)
      qed
    qed
  qed
qed

lemma keys_qp_put: "fst ` set (qp_put q k p) = insert k (fst ` set q)"
  by (auto simp: qp_put_def keys_delete)

lemma distinct_qp_put: "distinct (map fst q) \<Longrightarrow> distinct (map fst (qp_put q k p))"
  by (auto simp: qp_put_def distinct_delete keys_delete)

lemma hybrid_expand_keys:
  "hybrid_expand P hmap n_curr ind cls uds oq = Inr oq' \<Longrightarrow>
   fst ` set (fst oq') \<subseteq> fst ` set (fst oq) \<union> (lattice_keys P - fst ` set cls)"
proof (induction uds arbitrary: oq)
  case Nil
  then show ?case by auto
next
  case (Cons ud uds)
  from hybrid_expand_ConsD [OF Cons.prems] show ?case
  proof (elim disjE exE conjE)
    assume "hybrid_expand P hmap n_curr ind cls uds oq = Inr oq'"
    from Cons.IH [OF this] show ?thesis .
  next
    fix n f
    assume n: "calc_next_node n_curr ind (fst ud) (snd ud) P = Inr (Some n)"
      and c: "calc_index n P \<notin> fst ` set cls"
      and r: "hybrid_expand P hmap n_curr ind cls uds
                 (AList.update (calc_index n P) n (fst oq), qp_put (snd oq) (calc_index n P) f)
                = Inr oq'"
    define k where "k = calc_index n P"
    define A where "A = fst ` set (fst oq')"
    define B where "B = fst ` set (fst oq)"
    define C where "C = lattice_keys P - fst ` set cls"
    have "A \<subseteq> insert k B \<union> C"
      using Cons.IH [OF r] by (simp add: keys_update k_def A_def B_def C_def)
    moreover have "k \<in> C"
      using calc_next_node_key [OF n] c by (simp add: k_def C_def)
    ultimately have "A \<subseteq> B \<union> C" by auto
    then show ?thesis by (simp add: A_def B_def C_def)
  qed
qed

definition oq3_inv ::
  "(int \<times> node) list \<Rightarrow> (int \<times> node) list \<times> (int \<times> pyfloat) list \<Rightarrow> bool" where
  "oq3_inv cls oq \<longleftrightarrow>
     distinct (map fst (fst oq)) \<and> distinct (map fst (snd oq))
     \<and> fst ` set (snd oq) = fst ` set (fst oq)
     \<and> fst ` set (fst oq) \<inter> fst ` set cls = {}"

definition hybrid_inv :: "hybrid_state \<Rightarrow> bool" where
  "hybrid_inv st \<longleftrightarrow>
     oq3_inv (hs_closed st) (hs_open st, hs_queue st) \<and> distinct (map fst (hs_closed st))"

lemma hybrid_expand_inv:
  "hybrid_expand P hmap n_curr ind cls uds oq = Inr oq' \<Longrightarrow> oq3_inv cls oq \<Longrightarrow> oq3_inv cls oq'"
proof (induction uds arbitrary: oq)
  case Nil
  then show ?case by simp
next
  case (Cons ud uds)
  from hybrid_expand_ConsD [OF Cons.prems(1)] show ?case
  proof (elim disjE exE conjE)
    assume "hybrid_expand P hmap n_curr ind cls uds oq = Inr oq'"
    from Cons.IH [OF this Cons.prems(2)] show ?thesis .
  next
    fix n f
    assume c: "calc_index n P \<notin> fst ` set cls"
      and r: "hybrid_expand P hmap n_curr ind cls uds
                 (AList.update (calc_index n P) n (fst oq), qp_put (snd oq) (calc_index n P) f)
                = Inr oq'"
    have "oq3_inv cls (AList.update (calc_index n P) n (fst oq), qp_put (snd oq) (calc_index n P) f)"
      using Cons.prems(2) c
      by (auto simp: oq3_inv_def keys_update keys_qp_put distinct_update distinct_qp_put)
    from Cons.IH [OF r this] show ?thesis .
  qed
qed

lemma remove1_fst_keys:
  "distinct (map fst q) \<Longrightarrow> m \<in> set q \<Longrightarrow>
   fst ` set (remove1 m q) = fst ` set q - {fst m} \<and> distinct (map fst (remove1 m q))"
proof (induction q)
  case Nil
  then show ?case by simp
next
  case (Cons e q)
  show ?case
  proof (cases "m = e")
    case True
    with Cons.prems show ?thesis by auto
  next
    case False
    with Cons.prems have m: "m \<in> set q" and d: "distinct (map fst q)"
      and e: "fst e \<notin> fst ` set q" by auto
    from Cons.IH [OF d m] have
      ih: "fst ` set (remove1 m q) = fst ` set q - {fst m}" "distinct (map fst (remove1 m q))"
      by auto
    from m e have ne: "fst e \<noteq> fst m" by auto
    show ?thesis using False ih e ne by auto
  qed
qed

text \<open>What one pass does to the three containers, whatever its outcome.\<close>

lemma hybrid_iter_pop:
  assumes "hybrid_iter rs P hmap ngoal st = Inr r"
  shows "\<exists>ind n_curr q1.
           qp_get (hs_queue st) = Inr (ind, q1) \<and> map_of (hs_open st) ind = Some n_curr
           \<and> (case r of
                 Found fpath cls \<Rightarrow> cls = AList.update ind n_curr (hs_closed st)
                   \<and> update_node_with_analystic_expantion rs n_curr ngoal P = Inr (Some fpath)
               | Continue st' \<Rightarrow>
                   hs_closed st' = AList.update ind n_curr (hs_closed st)
                   \<and> update_node_with_analystic_expantion rs n_curr ngoal P = Inr None
                   \<and> hybrid_expand P hmap n_curr ind (hs_closed st') calc_motion_set
                        (AList.delete ind (hs_open st), q1) = Inr (hs_open st', hs_queue st'))"
proof -
  from assms obtain ind q1 where pop: "qp_get (hs_queue st) = Inr (ind, q1)"
    by (auto simp: hybrid_iter_def split: sum.splits)
  from assms pop obtain n_curr where cur: "map_of (hs_open st) ind = Some n_curr"
    by (auto simp: hybrid_iter_def split: option.splits)
  from assms pop cur obtain upd where
    u: "update_node_with_analystic_expantion rs n_curr ngoal P = Inr upd"
    by (auto simp: hybrid_iter_def Let_def split: sum.splits)
  show ?thesis
  proof (cases upd)
    case (Some fpath)
    with assms pop cur u have "r = Found fpath (AList.update ind n_curr (hs_closed st))"
      by (simp add: hybrid_iter_def Let_def)
    with pop cur u Some show ?thesis by simp
  next
    case None
    with assms pop cur u obtain oq where
      ex: "hybrid_expand P hmap n_curr ind (AList.update ind n_curr (hs_closed st))
             calc_motion_set (AList.delete ind (hs_open st), q1) = Inr oq"
      and r: "r = Continue \<lparr>hs_open = fst oq, hs_closed = AList.update ind n_curr (hs_closed st),
                           hs_queue = snd oq\<rparr>"
      by (cases "hybrid_expand P hmap n_curr ind (AList.update ind n_curr (hs_closed st))
             calc_motion_set (AList.delete ind (hs_open st), q1)")
        (simp_all add: hybrid_iter_def Let_def)
    with pop cur u None show ?thesis by simp
  qed
qed

lemma hybrid_iter_keys:
  assumes "hybrid_iter rs P hmap ngoal st = Inr (Continue st')"
  shows "\<exists>ind. ind \<in> fst ` set (hs_open st)
           \<and> fst ` set (hs_closed st') = insert ind (fst ` set (hs_closed st))
           \<and> fst ` set (hs_open st')
               \<subseteq> (fst ` set (hs_open st) - {ind}) \<union> (lattice_keys P - fst ` set (hs_closed st'))"
proof -
  from hybrid_iter_pop [OF assms] obtain ind n_curr q1 where
    cur: "map_of (hs_open st) ind = Some n_curr"
    and c: "hs_closed st' = AList.update ind n_curr (hs_closed st)"
    and ex: "hybrid_expand P hmap n_curr ind (hs_closed st') calc_motion_set
                        (AList.delete ind (hs_open st), q1) = Inr (hs_open st', hs_queue st')"
    by auto
  have "ind \<in> fst ` set (hs_open st)" using cur by (rule map_of_keys)
  moreover have "fst ` set (hs_closed st') = insert ind (fst ` set (hs_closed st))"
    by (simp add: c keys_update)
  moreover have "fst ` set (hs_open st')
               \<subseteq> (fst ` set (hs_open st) - {ind}) \<union> (lattice_keys P - fst ` set (hs_closed st'))"
    using hybrid_expand_keys [OF ex] by (simp add: keys_delete)
  ultimately show ?thesis by blast
qed

definition hybrid_measure ::
  "rs_calc_all_paths \<times> para \<times> pyfloat list list \<times> node \<times> hybrid_state \<Rightarrow> nat \<times> nat" where
  "hybrid_measure a =
     (case a of (rs, P, hmap, ngoal, st) \<Rightarrow>
        (card (lattice_keys P - fst ` set (hs_closed st)),
         card (fst ` set (hs_open st) - (lattice_keys P - fst ` set (hs_closed st)))))"

lemma hybrid_iter_decreases:
  assumes "hybrid_iter rs P hmap ngoal st = Inr (Continue st')"
  shows "(hybrid_measure (rs, P, hmap, ngoal, st'), hybrid_measure (rs, P, hmap, ngoal, st))
           \<in> less_than <*lex*> less_than"
proof -
  from hybrid_iter_keys [OF assms] obtain ind where
    i: "ind \<in> fst ` set (hs_open st)"
    and c: "fst ` set (hs_closed st') = insert ind (fst ` set (hs_closed st))"
    and o: "fst ` set (hs_open st')
               \<subseteq> (fst ` set (hs_open st) - {ind}) \<union> (lattice_keys P - fst ` set (hs_closed st'))"
    by blast
  define U where "U = lattice_keys P - fst ` set (hs_closed st)"
  define U' where "U' = lattice_keys P - fst ` set (hs_closed st')"
  define A where "A = fst ` set (hs_open st)"
  define A' where "A' = fst ` set (hs_open st')"
  have fU: "finite U" by (simp add: U_def finite_lattice_keys)
  have fA: "finite A" by (simp add: A_def)
  have o': "A' \<subseteq> (A - {ind}) \<union> U'" using o by (simp add: A_def A'_def U'_def)
  have i': "ind \<in> A" using i by (simp add: A_def)
  have m: "hybrid_measure (rs, P, hmap, ngoal, st') = (card U', card (A' - U'))"
    "hybrid_measure (rs, P, hmap, ngoal, st) = (card U, card (A - U))"
    by (simp_all add: hybrid_measure_def U_def U'_def A_def A'_def)
  show ?thesis
  proof (cases "ind \<in> U")
    case True
    have "U' = U - {ind}" using c by (auto simp: U_def U'_def)
    then have "card U' < card U" using True fU card_Diff1_less [of U ind] by simp
    then show ?thesis by (simp add: m)
  next
    case False
    then have eq: "U' = U" using c by (auto simp: U_def U'_def)
    have "A' - U' \<subseteq> (A - U) - {ind}" using o' eq by auto
    moreover have "ind \<in> A - U" using i' False by simp
    ultimately have "A' - U' \<subset> A - U" by blast
    then have "card (A' - U') < card (A - U)"
      using fA by (intro psubset_card_mono) auto
    with eq show ?thesis by (simp add: m)
  qed
qed

text \<open>The loop \<open>while True\<close> of \<open>hybrid_astar_planning\<close>: \<open>Inr None\<close> is the
  \<open>return None\<close>, \<open>Inr (Some (fnode, closed_set))\<close> the \<open>break\<close>.\<close>

function hybrid_loop ::
  "rs_calc_all_paths \<Rightarrow> para \<Rightarrow> pyfloat list list \<Rightarrow> node \<Rightarrow> hybrid_state
     \<Rightarrow> py_error + (node \<times> (int \<times> node) list) option" where
  "hybrid_loop rs P hmap ngoal st =
     (if hs_open st = [] then Inr None
      else case hybrid_iter rs P hmap ngoal st of
             Inl e \<Rightarrow> Inl e
           | Inr (Found fnode cls) \<Rightarrow> Inr (Some (fnode, cls))
           | Inr (Continue st') \<Rightarrow> hybrid_loop rs P hmap ngoal st')"
  by pat_completeness auto
termination
proof (relation "inv_image (less_than <*lex*> less_than) hybrid_measure")
  show "wf (inv_image (less_than <*lex*> less_than) hybrid_measure)"
    by (intro wf_inv_image wf_lex_prod wf_less_than)
next
  fix rs P hmap ngoal st r st'
  assume "hybrid_iter rs P hmap ngoal st = Inr r" "r = Continue st'"
  then show "((rs, P, hmap, ngoal, st'), (rs, P, hmap, ngoal, st))
      \<in> inv_image (less_than <*lex*> less_than) hybrid_measure"
    using hybrid_iter_decreases by (simp add: inv_image_def)
qed

declare hybrid_loop.simps [simp del]

subsection \<open>Path extraction\<close>

text \<open>The loop \<open>while True\<close> of \<open>extract_path\<close> walks the parent keys; it need not
  terminate on an arbitrary closed set, so not returning is the value \<open>None\<close>. The
  loop appends every segment reversed before it tests \<open>is_same_grid\<close>.\<close>

partial_function (option) extract_loop ::
  "(int \<times> node) list \<Rightarrow> node \<Rightarrow> node \<Rightarrow> real list \<Rightarrow> real list \<Rightarrow> real list \<Rightarrow> int list \<Rightarrow> real
     \<Rightarrow> (py_error + real list \<times> real list \<times> real list \<times> int list \<times> real) option" where
  "extract_loop cls nstart n rx ry ryaw direc c =
     (if is_same_grid n nstart then
        Some (Inr (rx @ rev (node_x n), ry @ rev (node_y n), ryaw @ rev (node_yaw n),
                   direc @ rev (directions n), c + cost n))
      else case map_of cls (pind n) of
             None \<Rightarrow> Some (Inl KeyError)
           | Some parent \<Rightarrow>
               extract_loop cls nstart parent
                 (rx @ rev (node_x n)) (ry @ rev (node_y n)) (ryaw @ rev (node_yaw n))
                 (direc @ rev (directions n)) (c + cost n))"

definition extract_path ::
  "(int \<times> node) list \<Rightarrow> node \<Rightarrow> node \<Rightarrow> (py_error + path) option" where
  "extract_path cls ngoal nstart =
     (case extract_loop cls nstart ngoal [] [] [] [] 0 of
        None \<Rightarrow> None
      | Some (Inl e) \<Rightarrow> Some (Inl e)
      | Some (Inr (rx, ry, ryaw, direc, c)) \<Rightarrow>
          (case py_nth (rev direc) 1 of
             Inl e \<Rightarrow> Some (Inl e)
           | Inr d1 \<Rightarrow>
               Some (Inr \<lparr>path_x = rev rx, path_y = rev ry, path_yaw = rev ryaw,
                          path_direction = (rev direc)[0 := d1], path_cost = c\<rparr>)))"

subsection \<open>Planner\<close>

text \<open>\<open>min\<close> and \<open>max\<close> of a list raise ValueError on an empty list.\<close>

definition py_min :: "int list \<Rightarrow> py_error + int" where
  "py_min vs = (case vs of [] \<Rightarrow> Inl ValueError | v # ws \<Rightarrow> Inr (fold min ws v))"

definition py_max :: "int list \<Rightarrow> py_error + int" where
  "py_max vs = (case vs of [] \<Rightarrow> Inl ValueError | v # ws \<Rightarrow> Inr (fold max ws v))"

text \<open>\<open>calc_parameters\<close>; the grid coordinates of the obstacles are integers, which
  \<open>round\<close> leaves as they are.\<close>

definition calc_parameters :: "int list \<Rightarrow> int list \<Rightarrow> real \<Rightarrow> real \<Rightarrow> py_error + para" where
  "calc_parameters ox_grid oy_grid xyres yawres =
     ebind (py_min ox_grid) (\<lambda>mnx.
     ebind (py_min oy_grid) (\<lambda>mny.
     ebind (py_max ox_grid) (\<lambda>mxx.
     ebind (py_max oy_grid) (\<lambda>mxy.
     ebind (py_div (- pi) yawres) (\<lambda>qmin.
     ebind (py_div pi yawres) (\<lambda>qmax.
       (let mnyaw = py_round qmin - 1;
            mxyaw = py_round qmax;
            oxs = map (\<lambda>i. of_int i * xyres) ox_grid;
            oys = map (\<lambda>i. of_int i * xyres) oy_grid
        in Inr \<lparr>minx = mnx, miny = mny, minyaw = mnyaw, maxx = mxx, maxy = mxy,
                 maxyaw = mxyaw, xw = mxx - mnx, yw = mxy - mny, yaww = mxyaw - mnyaw,
                 xyreso = xyres, yawreso = yawres, ox = oxs, oy = oys,
                 kdtree = zip oxs oys\<rparr>)))))))"

text \<open>The nodes \<open>nstart\<close> and \<open>ngoal\<close> of \<open>hybrid_astar_planning\<close> (its first six
  statements).\<close>

definition planning_nodes ::
  "real \<Rightarrow> real \<Rightarrow> real \<Rightarrow> real \<Rightarrow> real \<Rightarrow> real \<Rightarrow> real \<Rightarrow> real \<Rightarrow> py_error + node \<times> node" where
  "planning_nodes sx sy syaw gx gy gyaw xyres yawres =
     ebind (py_div sx xyres) (\<lambda>qsx.
     ebind (py_div sy xyres) (\<lambda>qsy.
     ebind (py_div gx xyres) (\<lambda>qgx.
     ebind (py_div gy xyres) (\<lambda>qgy.
     ebind (py_div (pi_2_pi syaw) yawres) (\<lambda>qsyaw.
     ebind (py_div (pi_2_pi gyaw) yawres) (\<lambda>qgyaw.
       Inr (\<lparr>xind = py_round qsx, yind = py_round qsy, yawind = py_round qsyaw, direction = 1,
              node_x = [sx], node_y = [sy], node_yaw = [syaw], directions = [1],
              steer = 0, cost = 0, pind = - 1\<rparr>,
            \<lparr>xind = py_round qgx, yind = py_round qgy, yawind = py_round qgyaw, direction = 1,
              node_x = [gx], node_y = [gy], node_yaw = [gyaw], directions = [1],
              steer = 0, cost = 0, pind = - 1\<rparr>)))))))"

text \<open>The state the main loop starts from.\<close>

definition hybrid_init :: "node \<Rightarrow> para \<Rightarrow> pyfloat \<Rightarrow> hybrid_state" where
  "hybrid_init nstart P f =
     \<lparr>hs_open = AList.update (calc_index nstart P) nstart [], hs_closed = [],
      hs_queue = qp_put [] (calc_index nstart P) f\<rparr>"

text \<open>\<open>hybrid_astar_planning\<close>, with the Reeds-Shepp generator as first argument:
  \<open>Some (Inr None)\<close> is the \<open>None\<close> it returns, \<open>Some (Inr (Some p))\<close> a path,
  \<open>Some (Inl e)\<close> an exception, \<open>None\<close> no return at all.\<close>

definition hybrid_astar_planning ::
  "rs_calc_all_paths \<Rightarrow> real \<Rightarrow> real \<Rightarrow> real \<Rightarrow> real \<Rightarrow> real \<Rightarrow> real \<Rightarrow> int list \<Rightarrow> int list
     \<Rightarrow> real \<Rightarrow> real \<Rightarrow> real \<Rightarrow> (py_error + path option) option" where
  "hybrid_astar_planning rs sx sy syaw gx gy gyaw ox_grid oy_grid xyres yawres radius =
     (case planning_nodes sx sy syaw gx gy gyaw xyres yawres of
        Inl e \<Rightarrow> Some (Inl e)
      | Inr (nstart, ngoal) \<Rightarrow>
          (case calc_parameters ox_grid oy_grid xyres yawres of
             Inl e \<Rightarrow> Some (Inl e)
           | Inr P \<Rightarrow>
               (case calc_holonomic_heuristic_with_obstacle ngoal P radius of
                  Inl e \<Rightarrow> Some (Inl e)
                | Inr hmap \<Rightarrow>
                    (case calc_hybrid_cost nstart hmap P of
                       Inl e \<Rightarrow> Some (Inl e)
                     | Inr f \<Rightarrow>
                         (case hybrid_loop rs P hmap ngoal (hybrid_init nstart P f) of
                            Inl e \<Rightarrow> Some (Inl e)
                          | Inr None \<Rightarrow> Some (Inr None)
                          | Inr (Some (fnode, cls)) \<Rightarrow>
                              (case extract_path cls fnode nstart of
                                 None \<Rightarrow> None
                               | Some (Inl e) \<Rightarrow> Some (Inl e)
                               | Some (Inr p) \<Rightarrow> Some (Inr (Some p))))))))"

subsection \<open>Runs of the two searches\<close>

text \<open>The states a run of the holonomic Dijkstra passes through, from the state \<open>s0\<close> on.\<close>

inductive holonomic_reach :: "para \<Rightarrow> bool list list \<Rightarrow> hstate \<Rightarrow> hstate \<Rightarrow> bool"
  for P obsmap s0 where
    holonomic_reach_start: "holonomic_reach P obsmap s0 s0"
  | holonomic_reach_step:
      "holonomic_reach P obsmap s0 st \<Longrightarrow> h_open st \<noteq> [] \<Longrightarrow>
       holonomic_iter P obsmap st = Inr st' \<Longrightarrow> holonomic_reach P obsmap s0 st'"

text \<open>The states a run of the main loop of \<open>hybrid_astar_planning\<close> passes through.\<close>

inductive hybrid_reach ::
  "rs_calc_all_paths \<Rightarrow> para \<Rightarrow> pyfloat list list \<Rightarrow> node \<Rightarrow> hybrid_state \<Rightarrow> hybrid_state \<Rightarrow> bool"
  for rs P hmap ngoal s0 where
    hybrid_reach_start: "hybrid_reach rs P hmap ngoal s0 s0"
  | hybrid_reach_step:
      "hybrid_reach rs P hmap ngoal s0 st \<Longrightarrow> hs_open st \<noteq> [] \<Longrightarrow>
       hybrid_iter rs P hmap ngoal st = Inr (Continue st') \<Longrightarrow> hybrid_reach rs P hmap ngoal s0 st'"

lemma holonomic_reach_inv:
  "holonomic_reach P obsmap s0 st \<Longrightarrow> hinv P obsmap g s0 \<Longrightarrow> hinv P obsmap g st"
  by (induction rule: holonomic_reach.induct) (auto intro: holonomic_iter_inv(1))

lemma hybrid_iter_inv:
  assumes "hybrid_inv st" and "hybrid_iter rs P hmap ngoal st = Inr r"
  shows "\<exists>ind n. ind \<notin> fst ` set (hs_closed st) \<and> ind \<in> fst ` set (hs_queue st)
           \<and> map_of (hs_open st) ind = Some n
           \<and> (case r of
                 Found fnode cls \<Rightarrow> cls = hs_closed st @ [(ind, n)]
               | Continue st' \<Rightarrow> hs_closed st' = hs_closed st @ [(ind, n)] \<and> hybrid_inv st')"
proof -
  from hybrid_iter_pop [OF assms(2)] obtain ind n_curr q1 where
    pop: "qp_get (hs_queue st) = Inr (ind, q1)"
    and cur: "map_of (hs_open st) ind = Some n_curr"
    and r: "case r of
                 Found fpath cls \<Rightarrow> cls = AList.update ind n_curr (hs_closed st)
                   \<and> update_node_with_analystic_expantion rs n_curr ngoal P = Inr (Some fpath)
               | Continue st' \<Rightarrow>
                   hs_closed st' = AList.update ind n_curr (hs_closed st)
                   \<and> update_node_with_analystic_expantion rs n_curr ngoal P = Inr None
                   \<and> hybrid_expand P hmap n_curr ind (hs_closed st') calc_motion_set
                        (AList.delete ind (hs_open st), q1) = Inr (hs_open st', hs_queue st')"
    by blast
  from assms(1) have
    d_open: "distinct (map fst (hs_open st))" and d_q: "distinct (map fst (hs_queue st))"
    and kq: "fst ` set (hs_queue st) = fst ` set (hs_open st)"
    and disj: "fst ` set (hs_open st) \<inter> fst ` set (hs_closed st) = {}"
    and d_closed: "distinct (map fst (hs_closed st))"
    by (simp_all add: hybrid_inv_def oq3_inv_def)
  from qp_get_Inr [OF pop] obtain m where pm: "m \<in> set (hs_queue st)" and mi: "ind = fst m"
    and q1: "q1 = remove1 m (hs_queue st)" by auto
  from remove1_fst_keys [OF d_q pm] have
    kq1: "fst ` set q1 = fst ` set (hs_queue st) - {ind}" and d_q1: "distinct (map fst q1)"
    by (auto simp: q1 mi)
  have ind_q: "ind \<in> fst ` set (hs_queue st)" using pm mi by auto
  have ind_open: "ind \<in> fst ` set (hs_open st)" using cur by (rule map_of_keys)
  with disj have ind_closed: "ind \<notin> fst ` set (hs_closed st)" by auto
  define closed1 where "closed1 = AList.update ind n_curr (hs_closed st)"
  have c1: "closed1 = hs_closed st @ [(ind, n_curr)]"
    using ind_closed by (simp add: closed1_def update_new_key)
  have inv1: "oq3_inv closed1 (AList.delete ind (hs_open st), q1)"
    using d_open d_q1 kq1 kq disj ind_closed
    by (auto simp: oq3_inv_def closed1_def keys_delete keys_update distinct_delete)
  have dc1: "distinct (map fst closed1)"
    using d_closed by (simp add: closed1_def distinct_update)
  have "case r of
          Found fnode cls \<Rightarrow> cls = hs_closed st @ [(ind, n_curr)]
        | Continue st' \<Rightarrow> hs_closed st' = hs_closed st @ [(ind, n_curr)] \<and> hybrid_inv st'"
  proof (cases r)
    case (Found fnode cls)
    with r c1 show ?thesis by (simp add: closed1_def)
  next
    case (Continue st')
    with r have c: "hs_closed st' = closed1"
      and ex0: "hybrid_expand P hmap n_curr ind (hs_closed st') calc_motion_set
                        (AList.delete ind (hs_open st), q1) = Inr (hs_open st', hs_queue st')"
      by (auto simp: closed1_def)
    from ex0 have ex: "hybrid_expand P hmap n_curr ind closed1 calc_motion_set
                        (AList.delete ind (hs_open st), q1) = Inr (hs_open st', hs_queue st')"
      by (simp only: c)
    from hybrid_expand_inv [OF ex inv1] dc1 c have "hybrid_inv st'"
      by (simp add: hybrid_inv_def)
    with Continue c c1 show ?thesis by simp
  qed
  with ind_closed ind_q cur show ?thesis by blast
qed

lemma hybrid_reach_inv:
  "hybrid_reach rs P hmap ngoal s0 st \<Longrightarrow> hybrid_inv s0 \<Longrightarrow> hybrid_inv st"
proof (induction rule: hybrid_reach.induct)
  case hybrid_reach_start
  then show ?case .
next
  case (hybrid_reach_step st st')
  from hybrid_iter_inv [OF hybrid_reach_step.IH [OF hybrid_reach_step.prems] hybrid_reach_step.hyps(3)]
  show ?case by auto
qed

lemma hybrid_inv_init: "hybrid_inv (hybrid_init nstart P f)"
  by (simp add: hybrid_inv_def oq3_inv_def hybrid_init_def qp_put_def)

text \<open>The lane example after the first pass of the Dijkstra loop.\<close>

definition lane_state1 :: hstate where
  "lane_state1 =
     \<lparr>h_open = [(5, \<lparr>hx = 1, hy = 1, hcost = 1, hpind = 6\<rparr>),
                (7, \<lparr>hx = 3, hy = 1, hcost = 1, hpind = 6\<rparr>)],
      h_closed = [(6, lane_holonomic_goal)],
      h_queue = [(1, 5), (1, 7)]\<rparr>"

text \<open>A Reeds-Shepp generator that answers with the identity path: the one sample of the
  start pose.\<close>

definition rs_identity :: rs_calc_all_paths where
  "rs_identity sx sy syaw gx gy gyaw maxc step_size =
     [\<lparr>rs_x = [sx], rs_y = [sy], rs_yaw = [syaw], rs_directions = [1], rs_lengths = [0]\<rparr>]"

lemma lane_iter_eval:
  "holonomic_iter lane_para lane_obsmap (holonomic_init lane_holonomic_goal lane_para)
     = Inr lane_state1"
  by (simp add: holonomic_init_def holonomic_iter_def heappop_def
      heappush_def tuple_less_def get_motion_def check_holonomic_node_def calc_holonomic_index_def
      lane_para_def lane_obsmap_def lane_holonomic_goal_def py_index_def ebind_def Let_def
      u_cost_axis lane_state1_def)

subsection \<open>The planner on the lane example\<close>

lemma py_round_neg_numeral: "py_round (- numeral k) = - numeral k"
  using py_round_of_int [of "- numeral k"] by simp

lemma lane_parameters_eval: "calc_parameters [0, 4] [0, 2] 1 (pi / 12) = Inr lane_para"
  by (simp add: calc_parameters_def py_min_def py_max_def py_div_def ebind_def
      py_round_numeral py_round_neg_numeral lane_para_def)

lemma lane_nodes_eval: "planning_nodes 2 1 0 2 1 0 1 (pi / 12) = Inr (lane_goal, lane_goal)"
  by (simp add: planning_nodes_def py_div_def ebind_def pi_2_pi_0 py_round_numeral py_round_1
      py_round_0 lane_goal_def)

lemma lane_start_cost_eval: "calc_hybrid_cost lane_goal lane_hmap lane_para = Inr (Fin 0)"
  by (simp add: calc_hybrid_cost_def lane_goal_def lane_hmap_def lane_para_def py_index_def
      ebind_def)

text \<open>The final node the analytic expansion builds from the identity path.\<close>

definition lane_fnode :: node where
  "lane_fnode = \<lparr>xind = 2, yind = 1, yawind = 0, direction = 1,
     node_x = [], node_y = [], node_yaw = [], directions = [],
     steer = 0, cost = 1, pind = 110\<rparr>"

lemma lane_is_collision_eval: "is_collision [2] [1] [0] lane_para = Inr False"
  by (simp add: is_collision_def lane_para_def footprint_centre_def collision_radius_def
      query_ball_point_def hypot_le_iff upt_0_2 RF_def RB_def W_def ebind_def
      power2_eq_square del: le_divide_eq_numeral1)

lemma lane_analytic_eval:
  "update_node_with_analystic_expantion rs_identity lane_goal lane_goal lane_para
     = Inr (Some lane_fnode)"
proof -
  have r: "py_range_step (Suc 0) COLLISION_CHECK_STEP = [0]"
    by (simp add: py_range_step_def COLLISION_CHECK_STEP_def)
  have "analystic_expantion rs_identity lane_goal lane_goal lane_para
      = Inr (Some \<lparr>rs_x = [2], rs_y = [1], rs_yaw = [0], rs_directions = [1], rs_lengths = [0]\<rparr>)"
    by (simp add: analystic_expantion_def lane_goal_def py_last_def ebind_def rs_identity_def
        qp_put_def first_free_path.simps qp_get_def r py_nth_def lane_is_collision_eval)
  then show ?thesis
    by (simp add: update_node_with_analystic_expantion_def ebind_def calc_rs_path_cost_def
        lane_fnode_def lane_goal_def calc_index_def lane_para_def)
qed

lemma lane_loop_found:
  "hybrid_loop rs_identity lane_para lane_hmap lane_goal (hybrid_init lane_goal lane_para (Fin 0))
     = Inr (Some (lane_fnode, [(110, lane_goal)]))"
proof -
  have k: "calc_index lane_goal lane_para = 110"
    by (simp add: calc_index_def lane_goal_def lane_para_def)
  define s0 where "s0 = hybrid_init lane_goal lane_para (Fin 0)"
  have it: "hybrid_iter rs_identity lane_para lane_hmap lane_goal s0
      = Inr (Found lane_fnode [(110, lane_goal)])"
    by (simp add: s0_def hybrid_iter_def hybrid_init_def k qp_put_def qp_get_def
        lane_analytic_eval)
  have ne: "hs_open s0 \<noteq> []" by (simp add: s0_def hybrid_init_def)
  have "hybrid_loop rs_identity lane_para lane_hmap lane_goal s0
      = Inr (Some (lane_fnode, [(110, lane_goal)]))"
    by (subst hybrid_loop.simps) (simp add: it ne)
  then show ?thesis by (simp only: s0_def)
qed

lemma lane_extract_eval: "extract_path [(110, lane_goal)] lane_fnode lane_goal = Some (Inl IndexError)"
  by (simp add: extract_path_def extract_loop.simps is_same_grid_def lane_fnode_def lane_goal_def
      py_nth_def)

lemma extract_path_length:
  "extract_path cls fnode nstart = Some (Inr p) \<Longrightarrow> 2 \<le> length (path_direction p)"
  by (auto simp: extract_path_def py_nth_def split: option.splits sum.splits if_splits)

text \<open>A start pose whose yaw is a full turn away from 0.\<close>

definition turned_start :: node where
  "turned_start = \<lparr>xind = 2, yind = 1, yawind = 0, direction = 1,
     node_x = [2], node_y = [1], node_yaw = [2 * pi], directions = [1],
     steer = 0, cost = 0, pind = - 1\<rparr>"

lemma pi_2_pi_two_pi: "pi_2_pi (2 * pi) = 0"
proof -
  have "(2 * pi - pi) / (2 * pi) = 1 / 2" by simp
  then have "\<lceil>(2 * pi - pi) / (2 * pi)\<rceil> = (1::int)" by (simp add: ceiling_eq_iff)
  then show ?thesis by (simp add: pi_2_pi_def)
qed

lemma turned_nodes_eval:
  "planning_nodes 2 1 (2 * pi) 2 1 0 1 (pi / 12) = Inr (turned_start, lane_goal)"
  by (simp add: planning_nodes_def py_div_def ebind_def pi_2_pi_0 pi_2_pi_two_pi py_round_numeral
      py_round_1 py_round_0 lane_goal_def turned_start_def)

lemma turned_is_collision_eval: "is_collision [2] [1] [2 * pi] lane_para = Inr False"
  by (simp add: is_collision_def lane_para_def footprint_centre_def collision_radius_def
      query_ball_point_def hypot_le_iff upt_0_2 RF_def RB_def W_def ebind_def
      power2_eq_square del: le_divide_eq_numeral1)

lemma turned_analytic_eval:
  "update_node_with_analystic_expantion rs_identity turned_start lane_goal lane_para
     = Inr (Some lane_fnode)"
proof -
  have r: "py_range_step (Suc 0) COLLISION_CHECK_STEP = [0]"
    by (simp add: py_range_step_def COLLISION_CHECK_STEP_def)
  have "analystic_expantion rs_identity turned_start lane_goal lane_para
      = Inr (Some \<lparr>rs_x = [2], rs_y = [1], rs_yaw = [2 * pi], rs_directions = [1],
                    rs_lengths = [0]\<rparr>)"
    by (simp add: analystic_expantion_def lane_goal_def turned_start_def py_last_def ebind_def
        rs_identity_def qp_put_def first_free_path.simps qp_get_def r py_nth_def
        turned_is_collision_eval)
  then show ?thesis
    by (simp add: update_node_with_analystic_expantion_def ebind_def calc_rs_path_cost_def
        lane_fnode_def turned_start_def calc_index_def lane_para_def)
qed

lemma calc_next_node_yaw_range:
  assumes "calc_next_node n_curr c_id u d P = Inr (Some child)" and "y \<in> set (node_yaw child)"
  shows "- pi < y \<and> y \<le> pi"
  using assms(2) pi_2_pi_range
  unfolding calc_next_node_SomeD(1) [OF assms(1)] successor_yaws_def by auto

text \<open>A second example in the lane: start and goal 0.4 apart in neighbouring cells, and a
  Reeds-Shepp generator that answers with the straight segment between them, sampled at its
  two ends and its middle.\<close>

definition rs_straight :: rs_calc_all_paths where
  "rs_straight sx sy syaw gx gy gyaw maxc step_size =
     [\<lparr>rs_x = [sx, (sx + gx) / 2, gx], rs_y = [sy, (sy + gy) / 2, gy],
       rs_yaw = [syaw, syaw, gyaw], rs_directions = [1, 1, 1],
       rs_lengths = [hypot (gx - sx) (gy - sy)]\<rparr>]"

definition near_start :: node where
  "near_start = \<lparr>xind = 2, yind = 1, yawind = 0, direction = 1,
     node_x = [12 / 5], node_y = [1], node_yaw = [0], directions = [1],
     steer = 0, cost = 0, pind = - 1\<rparr>"

definition near_goal :: node where
  "near_goal = \<lparr>xind = 3, yind = 1, yawind = 0, direction = 1,
     node_x = [14 / 5], node_y = [1], node_yaw = [0], directions = [1],
     steer = 0, cost = 0, pind = - 1\<rparr>"

definition near_hmap :: "pyfloat list list" where
  "near_hmap = [[PInf, PInf], [PInf, Fin 2], [PInf, Fin 1], [PInf, Fin 0]]"

definition near_fnode :: node where
  "near_fnode = \<lparr>xind = 2, yind = 1, yawind = 0, direction = 1,
     node_x = [13 / 5], node_y = [1], node_yaw = [0], directions = [1],
     steer = 0, cost = 1, pind = 110\<rparr>"

lemma near_nodes_eval:
  "planning_nodes (12 / 5) 1 0 (14 / 5) 1 0 1 (pi / 12) = Inr (near_start, near_goal)"
  by (simp add: planning_nodes_def py_div_def ebind_def pi_2_pi_0 py_round_1 py_round_0
      py_round_def near_start_def near_goal_def)

lemma near_hmap_eval:
  "calc_holonomic_heuristic_with_obstacle near_goal lane_para RADIUS = Inr near_hmap"
proof -
  have g: "holonomic_goal near_goal lane_para = Inr \<lparr>hx = 3, hy = 1, hcost = 0, hpind = - 1\<rparr>"
    by (simp add: holonomic_goal_def near_goal_def lane_para_def py_last_def py_div_def ebind_def
        py_round_def py_round_1)
  have l: "holonomic_loop lane_para lane_obsmap
        (holonomic_init \<lparr>hx = 3, hy = 1, hcost = 0, hpind = - 1\<rparr> lane_para)
     = Inr [(7, \<lparr>hx = 3, hy = 1, hcost = 0, hpind = - 1\<rparr>),
            (6, \<lparr>hx = 2, hy = 1, hcost = 1, hpind = 7\<rparr>),
            (5, \<lparr>hx = 1, hy = 1, hcost = 2, hpind = 6\<rparr>)]"
    by (simp add: holonomic_loop.simps holonomic_init_def holonomic_iter_def heappop_def
        heappush_def tuple_less_def get_motion_def check_holonomic_node_def
        calc_holonomic_index_def lane_para_def lane_obsmap_def py_index_def ebind_def Let_def
        u_cost_axis)
  have c: "holonomic_closed_set near_goal lane_para RADIUS
     = Inr [(7, \<lparr>hx = 3, hy = 1, hcost = 0, hpind = - 1\<rparr>),
            (6, \<lparr>hx = 2, hy = 1, hcost = 1, hpind = 7\<rparr>),
            (5, \<lparr>hx = 1, hy = 1, hcost = 2, hpind = 6\<rparr>)]"
    by (simp add: holonomic_closed_set_def g lane_obsmap_eval l ebind_def)
  show ?thesis
    unfolding calc_holonomic_heuristic_with_obstacle_def c
    by (simp add: ebind_def hmap_store_def py_position_def lane_para_def near_hmap_def
        numeral_eq_Suc)
qed

lemma near_start_cost_eval: "calc_hybrid_cost near_start near_hmap lane_para = Inr (Fin 10)"
  by (simp add: calc_hybrid_cost_def near_start_def near_hmap_def lane_para_def py_index_def
      ebind_def H_COST_def)

lemma near_is_collision_eval: "is_collision [12 / 5, 14 / 5] [1, 1] [0, 0] lane_para = Inr False"
  by (simp add: is_collision_def lane_para_def footprint_centre_def collision_radius_def
      query_ball_point_def hypot_le_iff upt_0_2 RF_def RB_def W_def ebind_def
      power2_eq_square del: le_divide_eq_numeral1)

lemma near_analytic_eval:
  "update_node_with_analystic_expantion rs_straight near_start near_goal lane_para
     = Inr (Some near_fnode)"
proof -
  have r: "py_range_step (Suc (Suc (Suc 0))) COLLISION_CHECK_STEP = [0, 2]"
    by (simp add: py_range_step_def COLLISION_CHECK_STEP_def upt_rec numeral_eq_Suc)
  have h: "0 \<le> hypot a b" for a b by (simp add: hypot_def)
  have "analystic_expantion rs_straight near_start near_goal lane_para
      = Inr (Some \<lparr>rs_x = [12 / 5, 13 / 5, 14 / 5], rs_y = [1, 1, 1], rs_yaw = [0, 0, 0],
                    rs_directions = [1, 1, 1], rs_lengths = [hypot (14 / 5 - 12 / 5) (1 - 1)]\<rparr>)"
    by (simp add: analystic_expantion_def near_start_def near_goal_def py_last_def ebind_def
        rs_straight_def qp_put_def first_free_path.simps qp_get_def r py_nth_def
        near_is_collision_eval Let_def)
  then show ?thesis
    by (simp add: update_node_with_analystic_expantion_def ebind_def calc_rs_path_cost_def h
        near_fnode_def near_start_def calc_index_def lane_para_def)
qed

lemma near_loop_found:
  "hybrid_loop rs_straight lane_para near_hmap near_goal (hybrid_init near_start lane_para (Fin 10))
     = Inr (Some (near_fnode, [(110, near_start)]))"
proof -
  have k: "calc_index near_start lane_para = 110"
    by (simp add: calc_index_def near_start_def lane_para_def)
  define s0 where "s0 = hybrid_init near_start lane_para (Fin 10)"
  have it: "hybrid_iter rs_straight lane_para near_hmap near_goal s0
      = Inr (Found near_fnode [(110, near_start)])"
    by (simp add: s0_def hybrid_iter_def hybrid_init_def k qp_put_def qp_get_def
        near_analytic_eval)
  have ne: "hs_open s0 \<noteq> []" by (simp add: s0_def hybrid_init_def)
  have "hybrid_loop rs_straight lane_para near_hmap near_goal s0
      = Inr (Some (near_fnode, [(110, near_start)]))"
    by (subst hybrid_loop.simps) (simp add: it ne)
  then show ?thesis by (simp only: s0_def)
qed

lemma near_extract_eval:
  "extract_path [(110, near_start)] near_fnode near_start = Some (Inl IndexError)"
  by (simp add: extract_path_def extract_loop.simps is_same_grid_def near_fnode_def
      near_start_def py_nth_def)

subsection \<open>What the results of the main loop and of the extraction mean\<close>

lemma hybrid_reach_prepend:
  assumes "hs_open st \<noteq> []" and "hybrid_iter rs P hmap ngoal st = Inr (Continue st1)"
    and "hybrid_reach rs P hmap ngoal st1 st'"
  shows "hybrid_reach rs P hmap ngoal st st'"
proof -
  have first: "hybrid_reach rs P hmap ngoal st st1"
    by (rule hybrid_reach.hybrid_reach_step [OF hybrid_reach.hybrid_reach_start assms(1,2)])
  from assms(3) first show ?thesis
    by (induction rule: hybrid_reach.induct) (auto intro: hybrid_reach.hybrid_reach_step)
qed

lemma hybrid_loop_NoneD:
  "hybrid_loop rs P hmap ngoal st = Inr None \<Longrightarrow>
   \<exists>st'. hybrid_reach rs P hmap ngoal st st' \<and> hs_open st' = []"
proof (induction rs P hmap ngoal st rule: hybrid_loop.induct)
  case (1 rs P hmap ngoal st)
  show ?case
  proof (cases "hs_open st = []")
    case True
    then show ?thesis using hybrid_reach_start by blast
  next
    case False
    with "1.prems" obtain st1 where it: "hybrid_iter rs P hmap ngoal st = Inr (Continue st1)"
      and lp: "hybrid_loop rs P hmap ngoal st1 = Inr None"
      by (auto simp: hybrid_loop.simps [of rs P hmap ngoal st] split: sum.splits iteration.splits)
    from "1.IH" [OF False it refl lp] obtain st' where
      r: "hybrid_reach rs P hmap ngoal st1 st'" and e: "hs_open st' = []" by blast
    have "hybrid_reach rs P hmap ngoal st st'"
      by (rule hybrid_reach_prepend [OF False it r])
    with e show ?thesis by blast
  qed
qed

lemma hybrid_loop_SomeD:
  "hybrid_loop rs P hmap ngoal st = Inr (Some (fnode, cls)) \<Longrightarrow>
   \<exists>st'. hybrid_reach rs P hmap ngoal st st' \<and> hs_open st' \<noteq> []
     \<and> hybrid_iter rs P hmap ngoal st' = Inr (Found fnode cls)"
proof (induction rs P hmap ngoal st rule: hybrid_loop.induct)
  case (1 rs P hmap ngoal st)
  from "1.prems" have ne: "hs_open st \<noteq> []"
    by (auto simp: hybrid_loop.simps [of rs P hmap ngoal st] split: if_splits)
  with "1.prems" obtain r where it: "hybrid_iter rs P hmap ngoal st = Inr r"
    by (auto simp: hybrid_loop.simps [of rs P hmap ngoal st] split: sum.splits)
  show ?case
  proof (cases r)
    case (Found f c)
    with "1.prems" ne it have "f = fnode" "c = cls"
      by (simp_all add: hybrid_loop.simps [of rs P hmap ngoal st])
    with Found it ne show ?thesis using hybrid_reach_start by blast
  next
    case (Continue st1)
    with "1.prems" ne it have lp: "hybrid_loop rs P hmap ngoal st1 = Inr (Some (fnode, cls))"
      by (simp add: hybrid_loop.simps [of rs P hmap ngoal st])
    from "1.IH" [OF ne it Continue lp] obtain st' where
      r: "hybrid_reach rs P hmap ngoal st1 st'" and e: "hs_open st' \<noteq> []"
      and f: "hybrid_iter rs P hmap ngoal st' = Inr (Found fnode cls)" by blast
    have it1: "hybrid_iter rs P hmap ngoal st = Inr (Continue st1)" using it Continue by simp
    have "hybrid_reach rs P hmap ngoal st st'"
      by (rule hybrid_reach_prepend [OF ne it1 r])
    with e f show ?thesis by blast
  qed
qed

text \<open>When the final node hangs below one successor of the start node, the path begins with
  the start node's own samples.\<close>

lemma extract_path_two_segments:
  assumes "\<not> is_same_grid fnode nstart" and "map_of cls (pind fnode) = Some child"
    and "\<not> is_same_grid child nstart" and "map_of cls (pind child) = Some nstart"
    and "extract_path cls fnode nstart = Some (Inr p)"
  shows "path_yaw p = node_yaw nstart @ node_yaw child @ node_yaw fnode"
proof -
  have s: "is_same_grid nstart nstart" by (simp add: is_same_grid_def)
  have "extract_loop cls nstart fnode [] [] [] [] 0
      = Some (Inr (rev (node_x fnode) @ rev (node_x child) @ rev (node_x nstart),
                   rev (node_y fnode) @ rev (node_y child) @ rev (node_y nstart),
                   rev (node_yaw fnode) @ rev (node_yaw child) @ rev (node_yaw nstart),
                   rev (directions fnode) @ rev (directions child) @ rev (directions nstart),
                   0 + cost fnode + cost child + cost nstart))"
    by (subst extract_loop.simps, simp add: assms(1,2),
        subst extract_loop.simps, simp add: assms(3,4),
        subst extract_loop.simps, simp add: s)
  with assms(5) show ?thesis
    by (auto simp: extract_path_def split: sum.splits)
qed

subsection \<open>The heuristic returns on a consistent grid\<close>

text \<open>The map has the shape of the grid.\<close>

definition grid_shaped :: "para \<Rightarrow> 'a list list \<Rightarrow> bool" where
  "grid_shaped P m \<longleftrightarrow> map length m = replicate (nat (xw P)) (nat (yw P))"

text \<open>The widths of the grid are the differences of its bounds, as \<open>calc_parameters\<close>
  sets them.\<close>

definition para_consistent :: "para \<Rightarrow> bool" where
  "para_consistent P \<longleftrightarrow> xw P = maxx P - minx P \<and> yw P = maxy P - miny P"

lemma emap_total: "(\<And>v. \<exists>w. f v = Inr w) \<Longrightarrow> \<exists>ws. emap f vs = Inr ws"
proof (induction vs)
  case Nil
  then show ?case by simp
next
  case (Cons v vs)
  from Cons.prems obtain w where "f v = Inr w" by blast
  moreover from Cons.IH Cons.prems obtain ws where "emap f vs = Inr ws" by blast
  ultimately show ?case by (simp add: ebind_def)
qed

lemma obstacles_map_total:
  assumes "xyreso P \<noteq> 0"
  shows "\<exists>obsmap. obstacles_map P rr = Inr obsmap \<and> grid_shaped P obsmap"
proof -
  have t: "\<exists>w. ebind (py_div v (xyreso P)) (\<lambda>w. Inr (py_round w)) = Inr w" for v
    using assms by (simp add: py_div_def ebind_def)
  from emap_total [of "\<lambda>v. ebind (py_div v (xyreso P)) (\<lambda>w. Inr (py_round w))", OF t]
  obtain gx gy where
    "emap (\<lambda>v. ebind (py_div v (xyreso P)) (\<lambda>w. Inr (py_round w))) (ox P) = Inr gx"
    "emap (\<lambda>v. ebind (py_div v (xyreso P)) (\<lambda>w. Inr (py_round w))) (oy P) = Inr gy"
    by blast
  then show ?thesis
    by (simp add: obstacles_map_def ebind_def grid_shaped_def comp_def map_replicate_const)
qed

lemma grid_shaped_nth:
  "grid_shaped P m \<Longrightarrow> length m = nat (xw P) \<and> (\<forall>i < nat (xw P). length (m ! i) = nat (yw P))"
  unfolding grid_shaped_def
  by (metis length_map length_replicate nth_map nth_replicate)

lemma check_holonomic_node_total:
  assumes "para_consistent P" and "grid_shaped P obsmap"
  shows "\<exists>b. check_holonomic_node n P obsmap = Inr b"
proof (cases "hx n \<le> minx P \<or> hx n \<ge> maxx P \<or> hy n \<le> miny P \<or> hy n \<ge> maxy P")
  case True
  then show ?thesis by (auto simp: check_holonomic_node_def)
next
  case False
  with assms(1) have a: "0 \<le> hx n - minx P" "hx n - minx P < xw P"
    and b: "0 \<le> hy n - miny P" "hy n - miny P < yw P"
    by (auto simp: para_consistent_def)
  note g = grid_shaped_nth [OF assms(2)]
  from a g have r: "py_index obsmap (hx n - minx P) = Inr (obsmap ! nat (hx n - minx P))"
    by (auto simp: py_index_def)
  from a have "nat (hx n - minx P) < nat (xw P)" by linarith
  with g have "length (obsmap ! nat (hx n - minx P)) = nat (yw P)" by simp
  with b have "\<exists>v. py_index (obsmap ! nat (hx n - minx P)) (hy n - miny P) = Inr v"
    by (auto simp: py_index_def)
  with False r show ?thesis
    by (auto simp: check_holonomic_node_def ebind_def)
qed

lemma holonomic_expand_total:
  assumes "para_consistent P" and "grid_shaped P obsmap"
  shows "\<exists>oq'. holonomic_expand P obsmap n_curr ind cls ms oq = Inr oq'"
proof (induction ms arbitrary: oq)
  case Nil
  then show ?case by simp
next
  case (Cons m ms)
  define n where "n = \<lparr>hx = hx n_curr + fst m, hy = hy n_curr + snd m,
                hcost = hcost n_curr + u_cost m, hpind = ind\<rparr>"
  from check_holonomic_node_total [OF assms, of n] obtain b where
    b: "check_holonomic_node n P obsmap = Inr b" by blast
  show ?case
    using Cons.IH b
    by (simp add: Let_def n_def [symmetric] split: option.splits)
qed

lemma holonomic_iter_total:
  assumes "para_consistent P" and "grid_shaped P obsmap" and "hinv P obsmap g st"
    and "h_open st \<noteq> []"
  shows "\<exists>st'. holonomic_iter P obsmap st = Inr st'"
proof -
  from assms(3) have kq: "snd ` set (h_queue st) = fst ` set (h_open st)"
    by (simp add: hinv_def oq_inv_def)
  with assms(4) have "h_queue st \<noteq> []" by auto
  from heappop_nonempty [OF this] obtain m q1 where pop: "heappop (h_queue st) = Inr (m, q1)"
    by blast
  from heappop_Inr [OF pop] kq have "snd m \<in> fst ` set (h_open st)" by auto
  then obtain n_curr where cur: "map_of (h_open st) (snd m) = Some n_curr"
    by (metis map_of_None_keys not_Some_eq)
  from holonomic_expand_total [OF assms(1,2)] obtain oq where
    "holonomic_expand P obsmap n_curr (snd m) (AList.update (snd m) n_curr (h_closed st))
       get_motion (AList.delete (snd m) (h_open st), q1) = Inr oq" by blast
  with pop cur show ?thesis by (simp add: holonomic_iter_def Let_def)
qed

lemma holonomic_loop_total:
  "para_consistent P \<Longrightarrow> grid_shaped P obsmap \<Longrightarrow> hinv P obsmap g st \<Longrightarrow>
   \<exists>cls. holonomic_loop P obsmap st = Inr cls"
proof (induction P obsmap st rule: holonomic_loop.induct)
  case (1 P obsmap st)
  show ?case
  proof (cases "h_open st = []")
    case True
    then show ?thesis by (simp add: holonomic_loop.simps)
  next
    case False
    from holonomic_iter_total [OF "1.prems" False] obtain st' where
      it: "holonomic_iter P obsmap st = Inr st'" by blast
    from holonomic_iter_inv(1) [OF "1.prems"(3) it] have "hinv P obsmap g st'" .
    from "1.IH" [OF False it "1.prems"(1,2) this] obtain cls where
      "holonomic_loop P obsmap st' = Inr cls" by blast
    with False it show ?thesis by (simp add: holonomic_loop.simps [of P obsmap st])
  qed
qed

lemma hmap_store_total:
  assumes "0 \<le> i" and "i < int (length hmap)" and "0 \<le> j" and "j < int (length (hmap ! nat i))"
  shows "\<exists>hmap'. hmap_store hmap i j v = Inr hmap'"
  using assms by (simp add: hmap_store_def py_position_def ebind_def)

lemma hmap_fill_total:
  "grid_shaped P hmap \<Longrightarrow>
   \<forall>n \<in> set ns. 0 \<le> fst (hcell P n) \<and> fst (hcell P n) < xw P
               \<and> 0 \<le> snd (hcell P n) \<and> snd (hcell P n) < yw P \<Longrightarrow>
   \<exists>hmap'. hmap_fill P ns hmap = Inr hmap'"
proof (induction ns arbitrary: hmap)
  case Nil
  then show ?case by simp
next
  case (Cons n ns)
  note g = grid_shaped_nth [OF Cons.prems(1)]
  from Cons.prems(2) have c: "0 \<le> hx n - minx P" "hx n - minx P < xw P"
    "0 \<le> hy n - miny P" "hy n - miny P < yw P"
    by (simp_all add: hcell_def)
  from c(1,2) have "nat (hx n - minx P) < nat (xw P)" by linarith
  with g have l: "hx n - minx P < int (length hmap)"
    "hy n - miny P < int (length (hmap ! nat (hx n - minx P)))"
    using c by auto
  from hmap_store_total [OF c(1) l(1) c(3) l(2)] obtain h1 where
    st: "hmap_store hmap (hx n - minx P) (hy n - miny P) (Fin (hcost n)) = Inr h1" by blast
  have "grid_shaped P h1"
    using hmap_store_nth(1) [OF st c(1) c(3)] Cons.prems(1) by (simp add: grid_shaped_def)
  from Cons.IH [OF this] Cons.prems(2) obtain h' where "hmap_fill P ns h1 = Inr h'" by auto
  with st show ?case by (simp add: ebind_def)
qed

lemma holonomic_heuristic_returns:
  assumes "para_consistent P" and "xyreso P \<noteq> 0"
    and "holonomic_goal n P = Inr g"
    and "0 \<le> hx g - minx P" and "hx g - minx P < xw P"
    and "0 \<le> hy g - miny P" and "hy g - miny P < yw P"
  shows "\<exists>hmap. calc_holonomic_heuristic_with_obstacle n P radius = Inr hmap"
proof -
  from obstacles_map_total [OF assms(2)] obtain obsmap where
    om: "obstacles_map P radius = Inr obsmap" and gs: "grid_shaped P obsmap" by blast
  note g0 = holonomic_goal_cost [OF assms(3)]
  from holonomic_loop_total [OF assms(1) gs hinv_init [OF g0]] obtain cls where
    lp: "holonomic_loop P obsmap (holonomic_init g P) = Inr cls" by blast
  have cs: "holonomic_closed_set n P radius = Inr cls"
    by (simp add: holonomic_closed_set_def assms(3) om lp ebind_def)
  note fin = holonomic_loop_init [OF g0 lp]
  note ent = closed_entry_cases [OF fin(1,2)]
  have cells: "\<forall>m \<in> set (map snd cls). 0 \<le> fst (hcell P m) \<and> fst (hcell P m) < xw P
               \<and> 0 \<le> snd (hcell P m) \<and> snd (hcell P m) < yw P"
  proof
    fix m assume "m \<in> set (map snd cls)"
    then have m: "m \<in> snd ` set cls" by simp
    from ent(2) [OF m] show "0 \<le> fst (hcell P m) \<and> fst (hcell P m) < xw P
               \<and> 0 \<le> snd (hcell P m) \<and> snd (hcell P m) < yw P"
    proof
      assume "hcell P m = hcell P g \<and> hcost m = 0"
      with assms(4-7) show ?thesis by (simp add: hcell_def)
    next
      assume "check_holonomic_node m P obsmap = Inr True"
      with assms(1) show ?thesis
        by (auto simp: check_holonomic_node_def hcell_def para_consistent_def split: if_splits)
    qed
  qed
  have "grid_shaped P (replicate (nat (xw P)) (replicate (nat (yw P)) PInf))"
    by (simp add: grid_shaped_def)
  from hmap_fill_total [OF this cells] cs show ?thesis
    by (simp add: calc_holonomic_heuristic_with_obstacle_def ebind_def)
qed

subsection \<open>The result of the main loop is decided by the run\<close>

lemma hybrid_loop_reach:
  "hybrid_reach rs P hmap ngoal s0 st \<Longrightarrow>
   hybrid_loop rs P hmap ngoal s0 = hybrid_loop rs P hmap ngoal st"
proof (induction rule: hybrid_reach.induct)
  case hybrid_reach_start
  show ?case by simp
next
  case (hybrid_reach_step st st')
  have "hybrid_loop rs P hmap ngoal st = hybrid_loop rs P hmap ngoal st'"
    using hybrid_reach_step.hyps(2,3) by (subst hybrid_loop.simps) simp
  with hybrid_reach_step.IH show ?case by simp
qed

lemma hybrid_loop_None_iff:
  "hybrid_loop rs P hmap ngoal s0 = Inr None
     \<longleftrightarrow> (\<exists>st. hybrid_reach rs P hmap ngoal s0 st \<and> hs_open st = [])"
proof
  assume "hybrid_loop rs P hmap ngoal s0 = Inr None"
  then show "\<exists>st. hybrid_reach rs P hmap ngoal s0 st \<and> hs_open st = []"
    by (rule hybrid_loop_NoneD)
next
  assume "\<exists>st. hybrid_reach rs P hmap ngoal s0 st \<and> hs_open st = []"
  then obtain st where r: "hybrid_reach rs P hmap ngoal s0 st" and e: "hs_open st = []" by blast
  have "hybrid_loop rs P hmap ngoal st = Inr None"
    using e by (subst hybrid_loop.simps) simp
  with hybrid_loop_reach [OF r] show "hybrid_loop rs P hmap ngoal s0 = Inr None" by simp
qed

lemma hybrid_loop_Some_iff:
  "hybrid_loop rs P hmap ngoal s0 = Inr (Some (fnode, cls))
     \<longleftrightarrow> (\<exists>st. hybrid_reach rs P hmap ngoal s0 st \<and> hs_open st \<noteq> []
            \<and> hybrid_iter rs P hmap ngoal st = Inr (Found fnode cls))"
proof
  assume "hybrid_loop rs P hmap ngoal s0 = Inr (Some (fnode, cls))"
  then show "\<exists>st. hybrid_reach rs P hmap ngoal s0 st \<and> hs_open st \<noteq> []
            \<and> hybrid_iter rs P hmap ngoal st = Inr (Found fnode cls)"
    by (rule hybrid_loop_SomeD)
next
  assume "\<exists>st. hybrid_reach rs P hmap ngoal s0 st \<and> hs_open st \<noteq> []
            \<and> hybrid_iter rs P hmap ngoal st = Inr (Found fnode cls)"
  then obtain st where r: "hybrid_reach rs P hmap ngoal s0 st" and e: "hs_open st \<noteq> []"
    and f: "hybrid_iter rs P hmap ngoal st = Inr (Found fnode cls)" by blast
  have "hybrid_loop rs P hmap ngoal st = Inr (Some (fnode, cls))"
    using e f by (subst hybrid_loop.simps) simp
  with hybrid_loop_reach [OF r] show "hybrid_loop rs P hmap ngoal s0 = Inr (Some (fnode, cls))"
    by simp
qed

subsection \<open>Parent chains\<close>

text \<open>A node is anchored in a closed set when the walk of \<open>extract_path\<close> from it along
  the parent keys comes to a node of the start cell.\<close>

inductive anchored :: "(int \<times> node) list \<Rightarrow> node \<Rightarrow> node \<Rightarrow> bool" for cls nstart where
    anchored_start: "is_same_grid n nstart \<Longrightarrow> anchored cls nstart n"
  | anchored_parent:
      "map_of cls (pind n) = Some parent \<Longrightarrow> anchored cls nstart parent \<Longrightarrow>
       anchored cls nstart n"

lemma map_of_append_new:
  "k \<notin> fst ` set cls \<Longrightarrow> map_of cls j = Some v \<Longrightarrow> map_of (cls @ [(k, w)]) j = Some v"
  by (simp add: map_add_Some_iff)

lemma anchored_mono:
  "anchored cls nstart n \<Longrightarrow> k \<notin> fst ` set cls \<Longrightarrow> anchored (cls @ [(k, w)]) nstart n"
proof (induction rule: anchored.induct)
  case (anchored_start n)
  from anchored_start.hyps show ?case by (rule anchored.anchored_start)
next
  case (anchored_parent n parent)
  from map_of_append_new [OF anchored_parent.prems anchored_parent.hyps(1)]
  have "map_of (cls @ [(k, w)]) (pind n) = Some parent" .
  then show ?case using anchored_parent.IH [OF anchored_parent.prems]
    by (rule anchored.anchored_parent)
qed

lemma extract_loop_anchored:
  "anchored cls nstart n \<Longrightarrow>
   \<exists>rx' ry' ryaw' direc' c'.
     extract_loop cls nstart n rx ry ryaw direc c = Some (Inr (rx', ry', ryaw', direc', c'))
     \<and> length direc + length (directions n) \<le> length direc'"
proof (induction arbitrary: rx ry ryaw direc c rule: anchored.induct)
  case (anchored_start n)
  then show ?case by (subst extract_loop.simps) simp
next
  case (anchored_parent n parent)
  show ?case
  proof (cases "is_same_grid n nstart")
    case True
    then show ?thesis by (subst extract_loop.simps) simp
  next
    case False
    from anchored_parent.IH [of "rx @ rev (node_x n)" "ry @ rev (node_y n)"
        "ryaw @ rev (node_yaw n)" "direc @ rev (directions n)" "c + cost n"]
    obtain rx' ry' ryaw' direc' c' where
      e: "extract_loop cls nstart parent (rx @ rev (node_x n)) (ry @ rev (node_y n))
            (ryaw @ rev (node_yaw n)) (direc @ rev (directions n)) (c + cost n)
          = Some (Inr (rx', ry', ryaw', direc', c'))"
      and l: "length (direc @ rev (directions n)) + length (directions parent) \<le> length direc'"
      by blast
    have "extract_loop cls nstart n rx ry ryaw direc c = Some (Inr (rx', ry', ryaw', direc', c'))"
      using False anchored_parent.hyps(1) e by (subst extract_loop.simps) simp
    with l show ?thesis by auto
  qed
qed

subsection \<open>The search raises no exception of its own\<close>

text \<open>The paths of the Reeds-Shepp generator have as many \<open>y\<close> and \<open>yaw\<close> samples as
  \<open>x\<close> samples.\<close>

definition rs_wf :: "rs_calc_all_paths \<Rightarrow> bool" where
  "rs_wf rs \<longleftrightarrow>
     (\<forall>sx sy syaw gx gy gyaw maxc step_size.
        \<forall>p \<in> set (rs sx sy syaw gx gy gyaw maxc step_size).
          length (rs_y p) = length (rs_x p) \<and> length (rs_yaw p) = length (rs_x p))"

text \<open>What the set-up of \<open>hybrid_astar_planning\<close> hands to the main loop: a consistent
  grid with non-zero resolutions, a KD-tree of the obstacle points, a heuristic map of the
  shape of the grid and a goal node with a pose.\<close>

definition search_ctx :: "rs_calc_all_paths \<Rightarrow> para \<Rightarrow> pyfloat list list \<Rightarrow> node \<Rightarrow> bool" where
  "search_ctx rs P hmap ngoal \<longleftrightarrow>
     para_consistent P \<and> grid_shaped P hmap \<and> kdtree P = zip (ox P) (oy P)
     \<and> xyreso P \<noteq> 0 \<and> yawreso P \<noteq> 0 \<and> rs_wf rs
     \<and> node_x ngoal \<noteq> [] \<and> node_y ngoal \<noteq> [] \<and> node_yaw ngoal \<noteq> []"

lemma is_collision_total:
  "kdtree P = zip (ox P) (oy P) \<Longrightarrow> \<exists>b. is_collision x y yaw P = Inr b"
  using is_collision_pose_collides by blast

lemma py_pick_total: "\<forall>k \<in> set ks. k < length xs \<Longrightarrow> \<exists>vs. py_pick xs ks = Inr vs"
  by (induction ks) (auto simp: ebind_def py_nth_def)

lemma py_range_step_bound: "k \<in> set (py_range_step n s) \<Longrightarrow> k < n"
  by (simp add: py_range_step_def)

lemma sampled_collision_total:
  assumes "kdtree P = zip (ox P) (oy P)" and "length ys = length xs" and "length yaws = length xs"
  shows "\<exists>px py pyaw b.
           py_pick xs (py_range_step (length xs) COLLISION_CHECK_STEP) = Inr px
           \<and> py_pick ys (py_range_step (length xs) COLLISION_CHECK_STEP) = Inr py
           \<and> py_pick yaws (py_range_step (length xs) COLLISION_CHECK_STEP) = Inr pyaw
           \<and> is_collision px py pyaw P = Inr b"
proof -
  let ?ind = "py_range_step (length xs) COLLISION_CHECK_STEP"
  have "\<forall>k \<in> set ?ind. k < length xs" using py_range_step_bound by blast
  with assms(2,3) obtain px py pyaw where
    "py_pick xs ?ind = Inr px" "py_pick ys ?ind = Inr py" "py_pick yaws ?ind = Inr pyaw"
    using py_pick_total [of ?ind xs] py_pick_total [of ?ind ys] py_pick_total [of ?ind yaws]
    by auto
  with is_collision_total [OF assms(1), of px py pyaw] show ?thesis by auto
qed

lemma is_index_ok_total:
  assumes "kdtree P = zip (ox P) (oy P)" and "length ys = length xs" and "length yaws = length xs"
  shows "\<exists>b. is_index_ok xi yi xs ys yaws P = Inr b"
proof -
  from sampled_collision_total [OF assms] obtain px py pyaw b where
    "py_pick xs (py_range_step (length xs) COLLISION_CHECK_STEP) = Inr px"
    "py_pick ys (py_range_step (length xs) COLLISION_CHECK_STEP) = Inr py"
    "py_pick yaws (py_range_step (length xs) COLLISION_CHECK_STEP) = Inr pyaw"
    "is_collision px py pyaw P = Inr b" by blast
  then show ?thesis by (auto simp: is_index_ok_def Let_def ebind_def)
qed

lemma calc_next_node_total:
  assumes "kdtree P = zip (ox P) (oy P)" and "xyreso P \<noteq> 0" and "yawreso P \<noteq> 0"
    and "node_x n_curr \<noteq> []" and "node_y n_curr \<noteq> []" and "node_yaw n_curr \<noteq> []"
  shows "\<exists>r. calc_next_node n_curr c_id u d P = Inr r"
proof -
  define lx where "lx = last (node_x n_curr)"
  define ly where "ly = last (node_y n_curr)"
  define lyaw where "lyaw = last (node_yaw n_curr)"
  define xs where "xs = [lx + d * MOVE_STEP * cos lyaw,
      lx + d * MOVE_STEP * cos lyaw + d * MOVE_STEP * cos (pi_2_pi (lyaw + d * MOVE_STEP * u))]"
  define ys where "ys = [ly + d * MOVE_STEP * sin lyaw,
      ly + d * MOVE_STEP * sin lyaw + d * MOVE_STEP * sin (pi_2_pi (lyaw + d * MOVE_STEP * u))]"
  define yaws where "yaws = [pi_2_pi (lyaw + d * MOVE_STEP * u),
      pi_2_pi (pi_2_pi (lyaw + d * MOVE_STEP * u) + d * MOVE_STEP * u)]"
  have len: "length ys = length xs" "length yaws = length xs"
    by (simp_all add: xs_def ys_def yaws_def)
  from is_index_ok_total [OF assms(1) len] obtain b where
    ok: "is_index_ok (py_round (last xs / xyreso P)) (py_round (last ys / xyreso P)) xs ys yaws P
           = Inr b" by blast
  show ?thesis
    unfolding calc_next_node_def Let_def motion_lists
    using assms(2-6) ok
    unfolding xs_def ys_def yaws_def lx_def ly_def lyaw_def
    by (auto simp: py_last_def ebind_def py_div_def)
qed

lemma calc_hybrid_cost_total:
  assumes "para_consistent P" and "grid_shaped P hmap"
    and "minx P < xind n" and "xind n < maxx P" and "miny P < yind n" and "yind n < maxy P"
  shows "\<exists>f. calc_hybrid_cost n hmap P = Inr f"
proof -
  from assms(1,3-6) have a: "0 \<le> xind n - minx P" "xind n - minx P < xw P"
    and b: "0 \<le> yind n - miny P" "yind n - miny P < yw P"
    by (auto simp: para_consistent_def)
  note g = grid_shaped_nth [OF assms(2)]
  from a g have r: "py_index hmap (xind n - minx P) = Inr (hmap ! nat (xind n - minx P))"
    by (auto simp: py_index_def)
  from a have "nat (xind n - minx P) < nat (xw P)" by linarith
  with g have "length (hmap ! nat (xind n - minx P)) = nat (yw P)" by simp
  with b have "\<exists>v. py_index (hmap ! nat (xind n - minx P)) (yind n - miny P) = Inr v"
    by (auto simp: py_index_def)
  with r show ?thesis by (auto simp: calc_hybrid_cost_def ebind_def)
qed

lemma qp_get_nonempty: "q \<noteq> [] \<Longrightarrow> \<exists>k q'. qp_get q = Inr (k, q')"
  by (cases q) (simp_all add: qp_get_def Let_def)

lemma qp_get_keys:
  assumes "qp_get q = Inr (k, q')"
  shows "k \<in> fst ` set q" and "fst ` set q' \<subseteq> fst ` set q"
proof -
  from qp_get_Inr [OF assms] obtain m where m: "m \<in> set q" "k = fst m" "q' = remove1 m q"
    by blast
  then show "k \<in> fst ` set q" by auto
  from m(3) show "fst ` set q' \<subseteq> fst ` set q" using set_remove1_subset [of m q] by auto
qed

lemma first_free_path_total:
  "kdtree P = zip (ox P) (oy P) \<Longrightarrow>
   \<forall>p \<in> set paths. length (rs_y p) = length (rs_x p) \<and> length (rs_yaw p) = length (rs_x p) \<Longrightarrow>
   fst ` set pq \<subseteq> {0..<length paths} \<Longrightarrow>
   \<exists>r. first_free_path P paths pq = Inr r"
proof (induction P paths pq rule: first_free_path.induct)
  case (1 P paths pq)
  show ?case
  proof (cases "pq = []")
    case True
    then show ?thesis by (simp add: first_free_path.simps)
  next
    case False
    from qp_get_nonempty [OF False] obtain k pq' where g: "qp_get pq = Inr (k, pq')" by blast
    from qp_get_keys [OF g] "1.prems"(3) have k: "k < length paths"
      and sub: "fst ` set pq' \<subseteq> {0..<length paths}" by auto
    define p where "p = paths ! k"
    from k "1.prems"(2) have wf: "length (rs_y p) = length (rs_x p)"
      "length (rs_yaw p) = length (rs_x p)" by (simp_all add: p_def)
    from sampled_collision_total [OF "1.prems"(1) wf] obtain px py pyaw b where
      pk: "py_pick (rs_x p) (py_range_step (length (rs_x p)) COLLISION_CHECK_STEP) = Inr px"
      "py_pick (rs_y p) (py_range_step (length (rs_x p)) COLLISION_CHECK_STEP) = Inr py"
      "py_pick (rs_yaw p) (py_range_step (length (rs_x p)) COLLISION_CHECK_STEP) = Inr pyaw"
      and c: "is_collision px py pyaw P = Inr b" by blast
    show ?thesis
    proof (cases b)
      case True
      have "\<exists>r. first_free_path P paths pq' = Inr r"
        using "1.IH" False g p_def pk c True "1.prems"(1,2) sub by auto
      then show ?thesis
        using False g pk c True
        by (subst first_free_path.simps) (simp add: Let_def p_def [symmetric])
    next
      case b: False
      show ?thesis
        using False g pk c b
        by (subst first_free_path.simps) (simp add: Let_def p_def [symmetric])
    qed
  qed
qed

lemma fold_qp_put_keys:
  "fst ` set (fold (\<lambda>k pq. qp_put pq k (g k)) ks q) = set ks \<union> fst ` set q"
  by (induction ks arbitrary: q) (auto simp: keys_qp_put)

lemma analystic_expantion_total:
  assumes "search_ctx rs P hmap ngoal"
    and "node_x n \<noteq> []" and "node_y n \<noteq> []" and "node_yaw n \<noteq> []"
  shows "\<exists>r. analystic_expantion rs n ngoal P = Inr r"
proof -
  from assms(1) have k: "kdtree P = zip (ox P) (oy P)" and wf: "rs_wf rs"
    and g: "node_x ngoal \<noteq> []" "node_y ngoal \<noteq> []" "node_yaw ngoal \<noteq> []"
    by (simp_all add: search_ctx_def)
  define paths where "paths = rs (last (node_x n)) (last (node_y n)) (last (node_yaw n))
      (last (node_x ngoal)) (last (node_y ngoal)) (last (node_yaw ngoal))
      MAX_CURVATURE_RADIUS MOVE_STEP"
  have pw: "\<forall>p \<in> set paths. length (rs_y p) = length (rs_x p)
      \<and> length (rs_yaw p) = length (rs_x p)"
    using wf unfolding rs_wf_def paths_def by blast
  have keys: "fst ` set (fold (\<lambda>k pq. qp_put pq k (Fin (calc_rs_path_cost (paths ! k))))
                     [0..<length paths] []) \<subseteq> {0..<length paths}"
    by (simp add: fold_qp_put_keys)
  from first_free_path_total [OF k pw keys] obtain r where
    "first_free_path P paths
       (fold (\<lambda>k pq. qp_put pq k (Fin (calc_rs_path_cost (paths ! k)))) [0..<length paths] [])
     = Inr r" by blast
  then show ?thesis
    using assms(2-4) g
    by (auto simp: analystic_expantion_def py_last_def ebind_def Let_def paths_def [symmetric])
qed

lemma update_node_total:
  assumes "search_ctx rs P hmap ngoal"
    and "node_x n \<noteq> []" and "node_y n \<noteq> []" and "node_yaw n \<noteq> []"
  shows "\<exists>r. update_node_with_analystic_expantion rs n ngoal P = Inr r"
proof -
  from analystic_expantion_total [OF assms] obtain r where
    "analystic_expantion rs n ngoal P = Inr r" by blast
  then show ?thesis
    by (cases r) (simp_all add: update_node_with_analystic_expantion_def ebind_def Let_def)
qed

lemma update_node_SomeD:
  assumes "update_node_with_analystic_expantion rs n ngoal P = Inr (Some fpath)"
  shows "pind fpath = calc_index n P" and "is_same_grid fpath n"
  using assms
  by (auto simp: update_node_with_analystic_expantion_def ebind_def Let_def is_same_grid_def
      split: sum.splits option.splits)

text \<open>Every node of the open set is filed under its own lattice key, has a pose, and is
  anchored in the closed set.\<close>

definition open_ok :: "para \<Rightarrow> node \<Rightarrow> (int \<times> node) list \<Rightarrow> (int \<times> node) list \<Rightarrow> bool" where
  "open_ok P nstart cls opn \<longleftrightarrow>
     (\<forall>k n. map_of opn k = Some n \<longrightarrow>
        k = calc_index n P \<and> node_x n \<noteq> [] \<and> node_y n \<noteq> [] \<and> node_yaw n \<noteq> []
        \<and> anchored cls nstart n)"

lemma open_ok_update:
  assumes "open_ok P nstart cls opn" and "k = calc_index n P"
    and "node_x n \<noteq> []" and "node_y n \<noteq> []" and "node_yaw n \<noteq> []"
    and "anchored cls nstart n"
  shows "open_ok P nstart cls (AList.update k n opn)"
  using assms by (simp add: open_ok_def update_conv')

lemma hybrid_expand_total:
  assumes "search_ctx rs P hmap ngoal"
    and "node_x n_curr \<noteq> []" and "node_y n_curr \<noteq> []" and "node_yaw n_curr \<noteq> []"
    and "map_of cls ind = Some n_curr" and "anchored cls nstart n_curr"
  shows "open_ok P nstart cls (fst oq) \<Longrightarrow>
         \<exists>oq'. hybrid_expand P hmap n_curr ind cls uds oq = Inr oq'
                \<and> open_ok P nstart cls (fst oq')"
proof (induction uds arbitrary: oq)
  case Nil
  then show ?case by simp
next
  case (Cons ud uds)
  from assms(1) have k: "kdtree P = zip (ox P) (oy P)" and x: "xyreso P \<noteq> 0"
    and y: "yawreso P \<noteq> 0" and pc: "para_consistent P" and gs: "grid_shaped P hmap"
    by (simp_all add: search_ctx_def)
  from calc_next_node_total [OF k x y assms(2-4)] obtain r where
    r: "calc_next_node n_curr ind (fst ud) (snd ud) P = Inr r" by blast
  show ?case
  proof (cases r)
    case None
    with r Cons show ?thesis by simp
  next
    case (Some n)
    note D = calc_next_node_SomeD [OF r [unfolded Some]]
    from calc_hybrid_cost_total [OF pc gs D(8-11)] obtain f where
      f: "calc_hybrid_cost n hmap P = Inr f" by blast
    have ne: "node_x n \<noteq> []" "node_y n \<noteq> []" "node_yaw n \<noteq> []"
      using D(1,2,3) by (auto simp: successor_yaws_def)
    have "map_of cls (pind n) = Some n_curr" using D(7) assms(5) by simp
    then have a: "anchored cls nstart n" using assms(6) by (rule anchored_parent)
    have ok': "open_ok P nstart cls (AList.update (calc_index n P) n (fst oq))"
      by (rule open_ok_update [OF Cons.prems refl ne a])
    from Cons.IH [of "(AList.update (calc_index n P) n (fst oq),
        qp_put (snd oq) (calc_index n P) f)"] ok'
    obtain oq1 where
      e1: "hybrid_expand P hmap n_curr ind cls uds
             (AList.update (calc_index n P) n (fst oq), qp_put (snd oq) (calc_index n P) f)
           = Inr oq1" and o1: "open_ok P nstart cls (fst oq1)" by auto
    from Cons.IH [OF Cons.prems] obtain oq2 where
      e2: "hybrid_expand P hmap n_curr ind cls uds oq = Inr oq2"
      and o2: "open_ok P nstart cls (fst oq2)" by blast
    have "hybrid_expand P hmap n_curr ind cls (ud # uds) oq
            = hybrid_expand P hmap n_curr ind cls uds oq
        \<or> hybrid_expand P hmap n_curr ind cls (ud # uds) oq
            = hybrid_expand P hmap n_curr ind cls uds
                (AList.update (calc_index n P) n (fst oq), qp_put (snd oq) (calc_index n P) f)"
      using r Some f by (simp add: Let_def split: option.splits)
    then show ?thesis
    proof
      assume "hybrid_expand P hmap n_curr ind cls (ud # uds) oq
            = hybrid_expand P hmap n_curr ind cls uds oq"
      with e2 o2 show ?thesis by (intro exI [of _ oq2]) simp
    next
      assume "hybrid_expand P hmap n_curr ind cls (ud # uds) oq
            = hybrid_expand P hmap n_curr ind cls uds
                (AList.update (calc_index n P) n (fst oq), qp_put (snd oq) (calc_index n P) f)"
      with e1 o1 show ?thesis by (intro exI [of _ oq1]) simp
    qed
  qed
qed

definition hybrid_ok :: "para \<Rightarrow> node \<Rightarrow> hybrid_state \<Rightarrow> bool" where
  "hybrid_ok P nstart st \<longleftrightarrow>
     hybrid_inv st \<and> open_ok P nstart (hs_closed st) (hs_open st)"

lemma open_ok_close:
  assumes "open_ok P nstart cls opn" and "ind \<notin> fst ` set cls"
  shows "open_ok P nstart (cls @ [(ind, v)]) (AList.delete ind opn)"
  unfolding open_ok_def
proof (intro allI impI)
  fix k n assume "map_of (AList.delete ind opn) k = Some n"
  then have "map_of opn k = Some n"
    by (auto simp: delete_conv' restrict_map_def split: if_splits)
  with assms(1) have a: "k = calc_index n P \<and> node_x n \<noteq> [] \<and> node_y n \<noteq> []
      \<and> node_yaw n \<noteq> []" and b: "anchored cls nstart n"
    by (simp_all add: open_ok_def)
  from anchored_mono [OF b assms(2)] a
  show "k = calc_index n P \<and> node_x n \<noteq> [] \<and> node_y n \<noteq> [] \<and> node_yaw n \<noteq> []
      \<and> anchored (cls @ [(ind, v)]) nstart n" by simp
qed

lemma hybrid_iter_ok:
  assumes "search_ctx rs P hmap ngoal" and "hybrid_ok P nstart st" and "hs_open st \<noteq> []"
  shows "\<exists>r. hybrid_iter rs P hmap ngoal st = Inr r
           \<and> (case r of
                 Found fnode cls \<Rightarrow> anchored cls nstart fnode
               | Continue st' \<Rightarrow> hybrid_ok P nstart st')"
proof -
  from assms(2) have inv: "hybrid_inv st" and ok: "open_ok P nstart (hs_closed st) (hs_open st)"
    by (simp_all add: hybrid_ok_def)
  from inv have kq: "fst ` set (hs_queue st) = fst ` set (hs_open st)"
    and disj: "fst ` set (hs_open st) \<inter> fst ` set (hs_closed st) = {}"
    by (simp_all add: hybrid_inv_def oq3_inv_def)
  from kq assms(3) have "hs_queue st \<noteq> []" by auto
  from qp_get_nonempty [OF this] obtain ind q1 where pop: "qp_get (hs_queue st) = Inr (ind, q1)"
    by blast
  from qp_get_keys(1) [OF pop] kq have io: "ind \<in> fst ` set (hs_open st)" by simp
  then obtain n_curr where cur: "map_of (hs_open st) ind = Some n_curr"
    by (metis map_of_None_keys not_Some_eq)
  from io disj have ic: "ind \<notin> fst ` set (hs_closed st)" by auto
  from ok cur have key: "ind = calc_index n_curr P"
    and ne: "node_x n_curr \<noteq> []" "node_y n_curr \<noteq> []" "node_yaw n_curr \<noteq> []"
    and an: "anchored (hs_closed st) nstart n_curr"
    by (simp_all add: open_ok_def)
  define closed1 where "closed1 = AList.update ind n_curr (hs_closed st)"
  have c1: "closed1 = hs_closed st @ [(ind, n_curr)]"
    using ic by (simp add: closed1_def update_new_key)
  have an1: "anchored closed1 nstart n_curr"
    unfolding c1 by (rule anchored_mono [OF an ic])
  have m1: "map_of closed1 ind = Some n_curr" by (simp add: closed1_def update_conv')
  from update_node_total [OF assms(1) ne] obtain u where
    u: "update_node_with_analystic_expantion rs n_curr ngoal P = Inr u" by blast
  show ?thesis
  proof (cases u)
    case (Some fpath)
    from update_node_SomeD(1) [OF u [unfolded Some]] key m1
    have "map_of closed1 (pind fpath) = Some n_curr" by simp
    then have "anchored closed1 nstart fpath" using an1 by (rule anchored_parent)
    moreover have "hybrid_iter rs P hmap ngoal st = Inr (Found fpath closed1)"
      using pop cur u Some by (simp add: hybrid_iter_def Let_def closed1_def)
    ultimately show ?thesis by simp
  next
    case None
    have ok1: "open_ok P nstart closed1 (AList.delete ind (hs_open st))"
      unfolding c1 by (rule open_ok_close [OF ok ic])
    from hybrid_expand_total [OF assms(1) ne m1 an1,
        of "(AList.delete ind (hs_open st), q1)" calc_motion_set] ok1
    obtain oq where
      ex: "hybrid_expand P hmap n_curr ind closed1 calc_motion_set
             (AList.delete ind (hs_open st), q1) = Inr oq"
      and oko: "open_ok P nstart closed1 (fst oq)" by auto
    define st' where "st' = \<lparr>hs_open = fst oq, hs_closed = closed1, hs_queue = snd oq\<rparr>"
    have it: "hybrid_iter rs P hmap ngoal st = Inr (Continue st')"
      using pop cur u None ex by (simp add: hybrid_iter_def Let_def closed1_def st'_def)
    from hybrid_iter_inv [OF inv it] have "hybrid_inv st'" by auto
    with oko have "hybrid_ok P nstart st'" by (simp add: hybrid_ok_def st'_def)
    with it show ?thesis by simp
  qed
qed

lemma hybrid_loop_ok:
  "search_ctx rs P hmap ngoal \<Longrightarrow> hybrid_ok P nstart st \<Longrightarrow>
   \<exists>r. hybrid_loop rs P hmap ngoal st = Inr r
     \<and> (\<forall>fnode cls. r = Some (fnode, cls) \<longrightarrow> anchored cls nstart fnode)"
proof (induction rs P hmap ngoal st rule: hybrid_loop.induct)
  case (1 rs P hmap ngoal st)
  show ?case
  proof (cases "hs_open st = []")
    case True
    then show ?thesis by (subst hybrid_loop.simps) simp
  next
    case False
    from hybrid_iter_ok [OF "1.prems" False] obtain r where
      it: "hybrid_iter rs P hmap ngoal st = Inr r"
      and c: "case r of Found fnode cls \<Rightarrow> anchored cls nstart fnode
               | Continue st' \<Rightarrow> hybrid_ok P nstart st'" by blast
    show ?thesis
    proof (cases r)
      case (Found fnode cls)
      with c it False show ?thesis by (subst hybrid_loop.simps) simp
    next
      case (Continue st')
      with c have "hybrid_ok P nstart st'" by simp
      from "1.IH" [OF False it Continue "1.prems"(1) this] obtain r' where
        "hybrid_loop rs P hmap ngoal st' = Inr r'"
        "\<forall>fnode cls. r' = Some (fnode, cls) \<longrightarrow> anchored cls nstart fnode" by blast
      with it Continue False show ?thesis by (subst hybrid_loop.simps) simp
    qed
  qed
qed

lemma hybrid_ok_init:
  assumes "node_x nstart \<noteq> []" and "node_y nstart \<noteq> []" and "node_yaw nstart \<noteq> []"
  shows "hybrid_ok P nstart (hybrid_init nstart P f)"
proof -
  have "anchored [] nstart nstart" by (rule anchored_start) (simp add: is_same_grid_def)
  with assms have "open_ok P nstart (hs_closed (hybrid_init nstart P f))
      (hs_open (hybrid_init nstart P f))"
    by (auto simp: open_ok_def hybrid_init_def split: if_splits)
  with hybrid_inv_init [of nstart P f] show ?thesis by (simp add: hybrid_ok_def)
qed

subsection \<open>What a successful set-up provides\<close>

lemma planning_nodes_InrD:
  assumes "planning_nodes sx sy syaw gx gy gyaw xyres yawres = Inr (nstart, ngoal)"
  shows "xyres \<noteq> 0" and "yawres \<noteq> 0"
    and "node_x nstart = [sx]" and "node_y nstart = [sy]" and "node_yaw nstart = [syaw]"
    and "node_x ngoal = [gx]" and "node_y ngoal = [gy]" and "node_yaw ngoal = [gyaw]"
  using assms
  by (auto simp: planning_nodes_def ebind_def py_div_def split: if_splits)

lemma calc_parameters_InrD:
  assumes "calc_parameters ox_grid oy_grid xyres yawres = Inr P"
  shows "para_consistent P" and "kdtree P = zip (ox P) (oy P)"
    and "xyreso P = xyres" and "yawreso P = yawres"
  using assms
  by (auto simp: calc_parameters_def ebind_def py_div_def Let_def para_consistent_def
      split: sum.splits if_splits)

lemma hmap_store_shape:
  "hmap_store hmap i j v = Inr hmap' \<Longrightarrow> map length hmap' = map length hmap"
  by (auto simp: hmap_store_def py_position_def ebind_def map_update list_update_same_conv
      split: if_splits)

lemma hmap_fill_grid_shaped:
  "hmap_fill P ns hmap = Inr hmap' \<Longrightarrow> grid_shaped P hmap \<Longrightarrow> grid_shaped P hmap'"
proof (induction ns arbitrary: hmap)
  case Nil
  then show ?case by simp
next
  case (Cons n ns)
  from Cons.prems(1) obtain h1 where
    st: "hmap_store hmap (hx n - minx P) (hy n - miny P) (Fin (hcost n)) = Inr h1"
    and rest: "hmap_fill P ns h1 = Inr hmap'"
    by (auto simp: ebind_def split: sum.splits)
  from hmap_store_shape [OF st] Cons.prems(2) have "grid_shaped P h1"
    by (simp add: grid_shaped_def)
  from Cons.IH [OF rest this] show ?case .
qed

lemma heuristic_grid_shaped:
  assumes "calc_holonomic_heuristic_with_obstacle n P radius = Inr hmap"
  shows "grid_shaped P hmap"
proof -
  from assms obtain cls :: "(int \<times> holonomic_node) list" where
    "hmap_fill P (map snd cls) (replicate (nat (xw P)) (replicate (nat (yw P)) PInf)) = Inr hmap"
    by (auto simp: calc_holonomic_heuristic_with_obstacle_def ebind_def split: sum.splits)
  moreover have "grid_shaped P (replicate (nat (xw P)) (replicate (nat (yw P)) PInf))"
    by (simp add: grid_shaped_def)
  ultimately show ?thesis by (rule hmap_fill_grid_shaped)
qed

section \<open>The specification's claims\<close>

text \<open>C1 (code evaluated at the failing input). The specification charges a forward
  segment its length; \<open>calc_rs_path_cost\<close> charges every forward segment the constant 1.
  For the single forward segment of length 2 the code returns 1 where the specified cost
  is 2.\<close>

theorem calc_rs_path_cost_forward_unit:
  "calc_rs_path_cost \<lparr>rs_x = [], rs_y = [], rs_yaw = [], rs_directions = [], rs_lengths = [2]\<rparr> = 1
   \<and> rs_cost_spec [2] = 2"
  by (simp add: calc_rs_path_cost_def rs_cost_spec_def)

text \<open>C10 (code evaluated at the failing input). With \<open>length_back = 1\<close>,
  \<open>length_front = 2\<close>, tractor pose \<open>(0, 0, 0)\<close> and hitch angle \<open>\<pi>\<close> the round trip
  returns the tractor pose \<open>(-2, 0, 0)\<close>: \<open>compute_trailer_pose_from_tractor_pose\<close>
  applies \<open>length_front\<close> along the tractor heading and \<open>length_back\<close> along the trailer
  heading, the opposite of \<open>compute_tractor_pose_from_trailer_pose\<close>.\<close>

theorem tractor_round_trip_not_identity:
  "tractor_round_trip example_model 0 0 0 pi = Inr (column [-2, 0, 0])"
  by (simp add: tractor_round_trip_def compute_trailer_pose_from_tractor_pose_def
      compute_tractor_pose_from_trailer_pose_def example_model_def column_def dm_size_def
      ebind_def)

text \<open>C9 (counterexample). A state of size (4, 1) and an input of size (2, 1) match the
  configured model, and \<open>dynamics\<close> still raises: with \<open>length_front = 0\<close> the
  division \<open>1 / self._lf\<close> raises ZeroDivisionError.\<close>

theorem dynamics_zero_length_front_raises:
  "dm_size (column [0, 0, 0, 0]) = (nx zero_front_model, 1)
   \<and> dm_size (column [1, 0]) = (nu zero_front_model, 1)
   \<and> dynamics zero_front_model (column [0, 0, 0, 0]) (column [1, 0]) = Inl ZeroDivisionError"
  by (simp add: dynamics_def zero_front_model_def column_def dm_size_def dm_get_def ebind_def
      gamma_dot_of_def py_div_def)

text \<open>C9 (amended). \<open>dynamics\<close> raises its size-mismatch exception exactly when the
  state's size is not \<open>(nx, 1)\<close> or the input's size is not \<open>(nu, 1)\<close>; for a correctly
  sized state and input it returns without raising when the model has at least two inputs
  and a non-zero \<open>length_front\<close>.\<close>

theorem dynamics_raises_size_mismatch:
  "(dynamics m state input = Inl SizeMismatch
      \<longleftrightarrow> dm_size state \<noteq> (nx m, 1) \<or> dm_size input \<noteq> (nu m, 1))
   \<and> (dm_size state = (nx m, 1) \<and> dm_size input = (nu m, 1) \<and> dm_wf state
        \<and> 2 \<le> nu m \<and> lf m \<noteq> 0 \<longrightarrow> (\<exists>r. dynamics m state input = Inr r))"
proof (intro conjI impI)
  show "dynamics m state input = Inl SizeMismatch
      \<longleftrightarrow> dm_size state \<noteq> (nx m, 1) \<or> dm_size input \<noteq> (nu m, 1)"
  proof (cases "dm_size state \<noteq> (nx m, 1) \<or> dm_size input \<noteq> (nu m, 1)")
    case True
    then show ?thesis by (auto simp: dynamics_def)
  next
    case False
    have "dynamics m state input \<noteq> Inl SizeMismatch"
      using False
      by (simp add: dynamics_def ebind_def dm_get_def theta2_dot_of_def gamma_dot_of_def
          py_div_def Let_def split: sum.splits list.splits)
    with False show ?thesis by simp
  qed
next
  assume h: "dm_size state = (nx m, 1) \<and> dm_size input = (nu m, 1) \<and> dm_wf state
        \<and> 2 \<le> nu m \<and> lf m \<noteq> 0"
  then have len: "length (elems state) = size1 state"
    and s2: "size2 input = 1" and s1: "2 \<le> size1 input"
    by (auto simp: dm_wf_def dm_size_def)
  show "\<exists>r. dynamics m state input = Inr r"
  proof (cases "size1 state = 6")
    case True
    with len obtain a b c d e f where "elems state = [a, b, c, d, e, f]"
      using list_of_length6 by metis
    with True h s1 s2 show ?thesis
      by (simp add: dynamics_def ebind_def dm_get_def theta2_dot_of_def py_div_def Let_def)
  next
    case False
    show ?thesis
    proof (cases "size1 state = 4")
      case True
      with len obtain a b c d where "elems state = [a, b, c, d]"
        using list_of_length4 by metis
      with True h s1 s2 show ?thesis
        by (simp add: dynamics_def ebind_def dm_get_def theta2_dot_of_def gamma_dot_of_def
            py_div_def Let_def)
    next
      case f4: False
      with False h s1 s2 show ?thesis
        by (simp add: dynamics_def ebind_def dm_get_def)
    qed
  qed
qed

theorem dynamics_raises_size_mismatch_witness:
  "dm_size (column [0, 0, 0, 0]) = (nx example_model, 1)
   \<and> dm_size (column [1, 0]) = (nu example_model, 1)
   \<and> dm_wf (column [0, 0, 0, 0]) \<and> 2 \<le> nu example_model \<and> lf example_model \<noteq> 0
   \<and> (\<exists>r. dynamics example_model (column [0, 0, 0, 0]) (column [1, 0]) = Inr r)
   \<and> dynamics example_model (column [0, 0, 0]) (column [1, 0]) = Inl SizeMismatch"
proof -
  have h: "dm_size (column [0, 0, 0, 0]) = (nx example_model, 1)
      \<and> dm_size (column [1, 0]) = (nu example_model, 1)
      \<and> dm_wf (column [0, 0, 0, 0]) \<and> 2 \<le> nu example_model \<and> lf example_model \<noteq> 0"
    by (simp add: dm_size_def column_def example_model_def dm_wf_def)
  have m: "dm_size (column [0, 0, 0]) \<noteq> (nx example_model, 1)"
    by (simp add: dm_size_def column_def example_model_def)
  show ?thesis
    using h m
      dynamics_raises_size_mismatch [of example_model "column [0, 0, 0, 0]" "column [1, 0]"]
      dynamics_raises_size_mismatch [of example_model "column [0, 0, 0]" "column [1, 0]"]
    by blast
qed

text \<open>C8. For a parameter set whose KD-tree holds the obstacle points (as
  \<open>calc_parameters\<close> builds it), \<open>is_collision\<close> returns True exactly when some sampled
  pose \<open>(ix, iy, iyaw)\<close> has a candidate \<open>i\<close> among the results of the radius query with
  \<open>r = max((RF + RB) / 2, W / 2) + xyreso\<close> around the footprint centre
  \<open>(ix + dl cos iyaw, iy + dl sin iyaw)\<close>, \<open>dl = (RF - RB) / 2\<close>, whose coordinates in the
  footprint frame satisfy \<open>|dx| < r\<close> and \<open>|dy| < W / 2 + xyreso\<close>; otherwise it returns
  False, and it never raises.\<close>

theorem is_collision_iff:
  "kdtree P = zip (ox P) (oy P) \<Longrightarrow>
   is_collision x y yaw P =
     Inr (\<exists>(ix, iy, iyaw) \<in> set (zip x (zip y yaw)).
            let r = max ((RF + RB) / 2) (W / 2) + xyreso P;
                dl = (RF - RB) / 2;
                cx = ix + dl * cos iyaw;
                cy = iy + dl * sin iyaw
            in \<exists>i \<in> set (query_ball_point (kdtree P) (cx, cy) r).
                 \<bar>(ox P ! i - cx) * cos iyaw + (oy P ! i - cy) * sin iyaw\<bar> < r
                 \<and> \<bar>- (ox P ! i - cx) * sin iyaw + (oy P ! i - cy) * cos iyaw\<bar> < W / 2 + xyreso P)"
proof -
  assume k: "kdtree P = zip (ox P) (oy P)"
  have "pose_collides P pose \<longleftrightarrow>
      (case pose of (ix, iy, iyaw) \<Rightarrow>
         let r = max ((RF + RB) / 2) (W / 2) + xyreso P;
             dl = (RF - RB) / 2;
             cx = ix + dl * cos iyaw;
             cy = iy + dl * sin iyaw
         in \<exists>i \<in> set (query_ball_point (kdtree P) (cx, cy) r).
              \<bar>(ox P ! i - cx) * cos iyaw + (oy P ! i - cy) * sin iyaw\<bar> < r
              \<and> \<bar>- (ox P ! i - cx) * sin iyaw + (oy P ! i - cy) * cos iyaw\<bar> < W / 2 + xyreso P)"
    for pose
    by (cases pose)
      (simp add: pose_collides_def footprint_centre_def collision_radius_def obstacle_hits_def
        Let_def algebra_simps)
  then show ?thesis
    using is_collision_pose_collides [OF k, of x y yaw] by simp
qed

theorem is_collision_iff_witness:
  "kdtree example_para = zip (ox example_para) (oy example_para)
   \<and> is_collision [0.2] [0] [0] example_para = Inr True"
proof -
  have k: "kdtree example_para = zip (ox example_para) (oy example_para)"
    by (simp add: example_para_def)
  have c: "is_collision [0.2] [0] [0] example_para = Inr True"
    by (simp add: is_collision_def example_para_def footprint_centre_def collision_radius_def
        query_ball_point_def hypot_le_iff upt_0_2 RF_def RB_def W_def ebind_def py_nth_def
        obstacle_hits_def power2_eq_square del: le_divide_eq_numeral1)
  show ?thesis
    using k c is_collision_iff [OF k, of "[0.2]" "[0]" "[0]"] by simp
qed

text \<open>C5 (code evaluated at the failing input). In the lane grid the planner's resolution
  is \<open>xyreso P = 1\<close>. The successor of the node at \<open>(2, 1, 0)\<close> by the primitive \<open>u = 0\<close>,
  \<open>d = 1\<close> (same gear, same steering) costs the parent's cost plus \<open>2 * XY_RESO = 2 / 5\<close>,
  where the specification's \<open>2 * \<Delta>xy\<close> is \<open>2 * xyreso P = 2\<close>: \<open>calc_next_node\<close> takes
  the arc length from the constant \<open>C.XY_RESO\<close> and, a few lines below, the index of the
  same successor from \<open>P.xyreso\<close>. The successor ends at \<open>x = 2.4\<close> and keeps its parent's
  key 110.\<close>

theorem calc_next_node_step_ignores_resolution:
  "calc_next_node lane_goal 110 0 1 lane_para = Inr (Some lane_child)
   \<and> cost lane_child = cost lane_goal + 2 * XY_RESO
   \<and> cost lane_child = 2 / 5
   \<and> cost lane_goal + 2 * xyreso lane_para = 2
   \<and> calc_index lane_goal lane_para = 110
   \<and> calc_index lane_child lane_para = 110"
proof (intro conjI)
  show "calc_next_node lane_goal 110 0 1 lane_para = Inr (Some lane_child)"
    by (rule lane_child_eval)
  show "cost lane_child = cost lane_goal + 2 * XY_RESO"
    by (simp add: lane_child_def lane_goal_def XY_RESO_def)
  show "cost lane_child = 2 / 5"
    by (simp add: lane_child_def)
  show "cost lane_goal + 2 * xyreso lane_para = 2"
    by (simp add: lane_goal_def lane_para_def)
  show "calc_index lane_goal lane_para = 110"
    by (simp add: calc_index_def lane_goal_def lane_para_def)
  show "calc_index lane_child lane_para = 110"
    by (simp add: calc_index_def lane_child_def lane_para_def)
qed

text \<open>C6 (counterexample). For a goal at \<open>(-1, 1)\<close>, one cell left of the lane grid,
  \<open>calc_holonomic_heuristic_with_obstacle\<close> returns a map whose cell \<open>(3, 1)\<close> holds 0.
  The Dijkstra expansion closed one node only, the goal node on cell \<open>(-1, 1)\<close>, and
  relaxed no cell of the grid: the store \<open>hmap[-1][1] = 0\<close> lands, by Python's negative
  index, in the last row. So a cell that was never relaxed does not hold \<open>+\<infinity>\<close>, and
  the goal cell, where the map should be 0, is no cell of the map.\<close>

theorem holonomic_heuristic_goal_off_grid:
  "calc_holonomic_heuristic_with_obstacle off_goal lane_para RADIUS = Inr off_hmap
   \<and> holonomic_goal off_goal lane_para = Inr off_holonomic_goal
   \<and> holonomic_closed_set off_goal lane_para RADIUS = Inr [(3, off_holonomic_goal)]
   \<and> hcell lane_para off_holonomic_goal = (- 1, 1)
   \<and> off_hmap ! 3 ! 1 = Fin 0"
proof (intro conjI)
  show "calc_holonomic_heuristic_with_obstacle off_goal lane_para RADIUS = Inr off_hmap"
    by (rule off_hmap_eval)
  show "holonomic_goal off_goal lane_para = Inr off_holonomic_goal"
    by (rule off_goal_eval)
  show "holonomic_closed_set off_goal lane_para RADIUS = Inr [(3, off_holonomic_goal)]"
    by (rule off_closed_eval)
  show "hcell lane_para off_holonomic_goal = (- 1, 1)"
    by (simp add: hcell_def off_holonomic_goal_def lane_para_def)
  show "off_hmap ! 3 ! 1 = Fin 0"
    by (simp add: off_hmap_def)
qed

text \<open>C6 (amended). When \<open>calc_holonomic_heuristic_with_obstacle\<close> returns a map and the goal cell
  lies in the grid, the map is 0 at the goal cell, every entry is \<open>+\<infinity>\<close> or a
  non-negative number, and every cell that no node of the closed set of the Dijkstra
  expansion stands on is \<open>+\<infinity>\<close>; in particular every blocked cell other than the goal
  cell is \<open>+\<infinity>\<close>.\<close>

theorem holonomic_heuristic_values:
  assumes "calc_holonomic_heuristic_with_obstacle n P radius = Inr hmap"
    and "holonomic_goal n P = Inr g"
    and "0 \<le> hx g - minx P" and "hx g - minx P < xw P"
    and "0 \<le> hy g - miny P" and "hy g - miny P < yw P"
  shows "hmap ! nat (hx g - minx P) ! nat (hy g - miny P) = Fin 0
    \<and> (\<forall>i < nat (xw P). \<forall>j < nat (yw P).
          hmap ! i ! j = PInf \<or> (\<exists>c. 0 \<le> c \<and> hmap ! i ! j = Fin c))
    \<and> (\<exists>closed_set obsmap.
          holonomic_closed_set n P radius = Inr closed_set
          \<and> obstacles_map P radius = Inr obsmap
          \<and> (\<forall>i < nat (xw P). \<forall>j < nat (yw P).
                (\<forall>m \<in> snd ` set closed_set. hcell P m \<noteq> (int i, int j))
                \<longrightarrow> hmap ! i ! j = PInf)
          \<and> (\<forall>i < nat (xw P). \<forall>j < nat (yw P).
                obsmap ! i ! j \<and> (int i, int j) \<noteq> hcell P g \<longrightarrow> hmap ! i ! j = PInf))"
proof -
  define h0 where "h0 = replicate (nat (xw P)) (replicate (nat (yw P)) PInf)"
  from assms(1) obtain closed_set where
    cs: "holonomic_closed_set n P radius = Inr closed_set"
    and fill: "hmap_fill P (map snd closed_set) h0 = Inr hmap"
    by (auto simp: calc_holonomic_heuristic_with_obstacle_def ebind_def h0_def split: sum.splits)
  from cs assms(2) obtain obsmap where
    om: "obstacles_map P radius = Inr obsmap"
    and lp: "holonomic_loop P obsmap (holonomic_init g P) = Inr closed_set"
    by (auto simp: holonomic_closed_set_def ebind_def split: sum.splits)
  note g0 = holonomic_goal_cost [OF assms(2)]
  note fin = holonomic_loop_init [OF g0 lp]
  note ent = closed_entry_cases [OF fin(1,2)]
  have gcell: "hcell P g = (hx g - minx P, hy g - miny P)" by (simp add: hcell_def)
  have nonneg: "\<forall>m \<in> set (map snd closed_set). 0 \<le> fst (hcell P m) \<and> 0 \<le> snd (hcell P m)"
  proof
    fix m assume "m \<in> set (map snd closed_set)"
    then have m: "m \<in> snd ` set closed_set" by simp
    from ent(2) [OF m] show "0 \<le> fst (hcell P m) \<and> 0 \<le> snd (hcell P m)"
    proof
      assume "hcell P m = hcell P g \<and> hcost m = 0"
      with assms(3,5) show ?thesis by (simp add: gcell)
    next
      assume "check_holonomic_node m P obsmap = Inr True"
      from check_holonomic_node_TrueD(1,2) [OF this] show ?thesis by simp
    qed
  qed
  have dist: "distinct (map (hcell P) (map snd closed_set))"
    by (rule closed_cells_distinct [OF fin(1,2)])
  have len0: "length h0 = nat (xw P)" and row0: "\<And>i. i < nat (xw P) \<Longrightarrow> length (h0 ! i) = nat (yw P)"
    and val0: "\<And>i j. i < nat (xw P) \<Longrightarrow> j < nat (yw P) \<Longrightarrow> h0 ! i ! j = PInf"
    by (simp_all add: h0_def)
  have gin: "g \<in> set (map snd closed_set)" using fin(3) by force
  have goal: "hmap ! nat (hx g - minx P) ! nat (hy g - miny P) = Fin 0"
    using hmap_fill_written [OF fill nonneg dist gin] g0 by (simp add: gcell)
  have vals: "hmap ! i ! j = PInf \<or> (\<exists>c. 0 \<le> c \<and> hmap ! i ! j = Fin c)"
    if "i < nat (xw P)" "j < nat (yw P)" for i j
  proof -
    have i0: "i < length h0" and j0: "j < length (h0 ! i)" using that len0 row0 by auto
    from hmap_fill_values [OF fill nonneg i0 j0] show ?thesis
    proof
      assume "hmap ! i ! j = h0 ! i ! j"
      with val0 [OF that] show ?thesis by simp
    next
      assume "\<exists>m \<in> set (map snd closed_set). hmap ! i ! j = Fin (hcost m)"
      then obtain m where m: "m \<in> snd ` set closed_set" and v: "hmap ! i ! j = Fin (hcost m)"
        by auto
      from ent(1) [OF m] v show ?thesis by auto
    qed
  qed
  have untouched: "hmap ! i ! j = PInf"
    if "i < nat (xw P)" "j < nat (yw P)"
      "\<forall>m \<in> snd ` set closed_set. hcell P m \<noteq> (int i, int j)" for i j
  proof -
    have i0: "i < length h0" and j0: "j < length (h0 ! i)" using that len0 row0 by auto
    have "\<forall>m \<in> set (map snd closed_set). hcell P m \<noteq> (int i, int j)" using that(3) by simp
    from hmap_fill_untouched [OF fill nonneg i0 j0 this] val0 [OF that(1,2)]
    show ?thesis by simp
  qed
  have blocked: "hmap ! i ! j = PInf"
    if "i < nat (xw P)" "j < nat (yw P)" "obsmap ! i ! j" "(int i, int j) \<noteq> hcell P g" for i j
  proof (rule untouched [OF that(1,2)], rule ballI)
    fix m assume m: "m \<in> snd ` set closed_set"
    from ent(2) [OF m] show "hcell P m \<noteq> (int i, int j)"
    proof
      assume "hcell P m = hcell P g \<and> hcost m = 0"
      with that(4) show ?thesis by auto
    next
      assume "check_holonomic_node m P obsmap = Inr True"
      from check_holonomic_node_TrueD(3) [OF this] that(3) show ?thesis by auto
    qed
  qed
  show ?thesis
    using goal vals cs om untouched blocked by blast
qed

theorem holonomic_heuristic_values_witness:
  "calc_holonomic_heuristic_with_obstacle lane_goal lane_para RADIUS = Inr lane_hmap
   \<and> holonomic_goal lane_goal lane_para = Inr lane_holonomic_goal
   \<and> 0 \<le> hx lane_holonomic_goal - minx lane_para
   \<and> hx lane_holonomic_goal - minx lane_para < xw lane_para
   \<and> 0 \<le> hy lane_holonomic_goal - miny lane_para
   \<and> hy lane_holonomic_goal - miny lane_para < yw lane_para
   \<and> lane_hmap ! 2 ! 1 = Fin 0"
proof -
  have b: "0 \<le> hx lane_holonomic_goal - minx lane_para"
    "hx lane_holonomic_goal - minx lane_para < xw lane_para"
    "0 \<le> hy lane_holonomic_goal - miny lane_para"
    "hy lane_holonomic_goal - miny lane_para < yw lane_para"
    by (simp_all add: lane_holonomic_goal_def lane_para_def)
  have v: "nat (hx lane_holonomic_goal - minx lane_para) = 2"
    "nat (hy lane_holonomic_goal - miny lane_para) = 1"
    "nat (xw lane_para) = 4" "nat (yw lane_para) = 2"
    by (simp_all add: lane_holonomic_goal_def lane_para_def)
  from holonomic_heuristic_values [OF lane_hmap_eval lane_goal_eval b]
  show ?thesis
    using lane_hmap_eval lane_goal_eval b unfolding v by blast
qed

text \<open>C7. In every state a run of either search passes through - the holonomic Dijkstra
  from its initial state, the main loop of \<open>hybrid_astar_planning\<close> from its own - no key
  of the closed set is a key of the open set or of the priority queue; a pass of the loop
  pops a key that is in the queue and not in the closed set and appends it to the closed
  set, which otherwise stays as it is. So a key, once closed, is never popped again and no
  successor with that key enters the open set or the queue.\<close>

theorem closed_cells_never_reexpanded:
  "(holonomic_goal n P = Inr g \<and> holonomic_reach P obsmap (holonomic_init g P) st \<longrightarrow>
      fst ` set (h_closed st) \<inter> (fst ` set (h_open st) \<union> snd ` set (h_queue st)) = {}
      \<and> (\<forall>st'. holonomic_iter P obsmap st = Inr st' \<longrightarrow>
            (\<exists>ind m. ind \<notin> fst ` set (h_closed st) \<and> ind \<in> snd ` set (h_queue st)
               \<and> h_closed st' = h_closed st @ [(ind, m)])))
   \<and> (hybrid_reach rs P hmap ngoal (hybrid_init nstart P f) hst \<longrightarrow>
      fst ` set (hs_closed hst) \<inter> (fst ` set (hs_open hst) \<union> fst ` set (hs_queue hst)) = {}
      \<and> (\<forall>r. hybrid_iter rs P hmap ngoal hst = Inr r \<longrightarrow>
            (\<exists>ind m. ind \<notin> fst ` set (hs_closed hst) \<and> ind \<in> fst ` set (hs_queue hst)
               \<and> (case r of
                     Found fnode cls \<Rightarrow> cls = hs_closed hst @ [(ind, m)]
                   | Continue hst' \<Rightarrow> hs_closed hst' = hs_closed hst @ [(ind, m)]))))"
proof (intro conjI impI allI)
  assume a: "holonomic_goal n P = Inr g \<and> holonomic_reach P obsmap (holonomic_init g P) st"
  then have inv: "hinv P obsmap g st"
    using holonomic_reach_inv hinv_init holonomic_goal_cost by blast
  then show "fst ` set (h_closed st) \<inter> (fst ` set (h_open st) \<union> snd ` set (h_queue st)) = {}"
    by (auto simp: hinv_def oq_inv_def)
  fix st' assume "holonomic_iter P obsmap st = Inr st'"
  from holonomic_iter_inv(2) [OF inv this]
  show "\<exists>ind m. ind \<notin> fst ` set (h_closed st) \<and> ind \<in> snd ` set (h_queue st)
               \<and> h_closed st' = h_closed st @ [(ind, m)]" by blast
next
  assume "hybrid_reach rs P hmap ngoal (hybrid_init nstart P f) hst"
  then have inv: "hybrid_inv hst" using hybrid_reach_inv hybrid_inv_init by blast
  then show "fst ` set (hs_closed hst) \<inter> (fst ` set (hs_open hst) \<union> fst ` set (hs_queue hst)) = {}"
    by (auto simp: hybrid_inv_def oq3_inv_def)
  fix r assume "hybrid_iter rs P hmap ngoal hst = Inr r"
  from hybrid_iter_inv [OF inv this] obtain ind m where
    "ind \<notin> fst ` set (hs_closed hst)" "ind \<in> fst ` set (hs_queue hst)"
    and c: "case r of
                 Found fnode cls \<Rightarrow> cls = hs_closed hst @ [(ind, m)]
               | Continue st' \<Rightarrow> hs_closed st' = hs_closed hst @ [(ind, m)] \<and> hybrid_inv st'"
    by blast
  moreover from c have "case r of
                     Found fnode cls \<Rightarrow> cls = hs_closed hst @ [(ind, m)]
                   | Continue hst' \<Rightarrow> hs_closed hst' = hs_closed hst @ [(ind, m)]"
    by (cases r) auto
  ultimately show "\<exists>ind m. ind \<notin> fst ` set (hs_closed hst) \<and> ind \<in> fst ` set (hs_queue hst)
               \<and> (case r of
                     Found fnode cls \<Rightarrow> cls = hs_closed hst @ [(ind, m)]
                   | Continue hst' \<Rightarrow> hs_closed hst' = hs_closed hst @ [(ind, m)])"
    by blast
qed

theorem closed_cells_never_reexpanded_witness:
  "holonomic_goal lane_goal lane_para = Inr lane_holonomic_goal
   \<and> holonomic_reach lane_para lane_obsmap (holonomic_init lane_holonomic_goal lane_para) lane_state1
   \<and> fst ` set (h_closed lane_state1)
        \<inter> (fst ` set (h_open lane_state1) \<union> snd ` set (h_queue lane_state1)) = {}
   \<and> hybrid_reach rs_identity lane_para lane_hmap lane_goal
        (hybrid_init lane_goal lane_para (Fin 0)) (hybrid_init lane_goal lane_para (Fin 0))
   \<and> fst ` set (hs_closed (hybrid_init lane_goal lane_para (Fin 0)))
        \<inter> (fst ` set (hs_open (hybrid_init lane_goal lane_para (Fin 0)))
           \<union> fst ` set (hs_queue (hybrid_init lane_goal lane_para (Fin 0)))) = {}"
proof -
  have ne: "h_open (holonomic_init lane_holonomic_goal lane_para) \<noteq> []"
    by (simp add: holonomic_init_def)
  have r2: "holonomic_reach lane_para lane_obsmap
      (holonomic_init lane_holonomic_goal lane_para) lane_state1"
    by (rule holonomic_reach_step [OF holonomic_reach_start ne lane_iter_eval])
  have r3: "hybrid_reach rs_identity lane_para lane_hmap lane_goal
      (hybrid_init lane_goal lane_para (Fin 0)) (hybrid_init lane_goal lane_para (Fin 0))"
    by (rule hybrid_reach_start)
  note T = closed_cells_never_reexpanded [of lane_goal lane_para lane_holonomic_goal lane_obsmap
        lane_state1 rs_identity lane_hmap lane_goal lane_goal "Fin 0"
        "hybrid_init lane_goal lane_para (Fin 0)"]
  note d2 = T [THEN conjunct1, THEN mp, OF conjI [OF lane_goal_eval r2], THEN conjunct1]
  note d3 = T [THEN conjunct2, THEN mp, OF r3, THEN conjunct1]
  show ?thesis
    by (intro conjI lane_goal_eval r2 r3 d2 d3)
qed

text \<open>C3 (code evaluated at the failing input). Start and goal are the same pose
  \<open>(2, 1, 0)\<close> of the lane, so they have the same discrete index, and the Reeds-Shepp
  generator answers with the identity path. The analytic expansion accepts it, the final
  node has no samples, and \<open>extract_path\<close> raises IndexError at \<open>direc[0] = direc[1]\<close>:
  the planner fails instead of returning a path.\<close>

theorem planning_same_cell_raises:
  "planning_nodes 2 1 0 2 1 0 1 (pi / 12) = Inr (lane_goal, lane_goal)
   \<and> hybrid_astar_planning rs_identity 2 1 0 2 1 0 [0, 4] [0, 2] 1 (pi / 12) RADIUS
       = Some (Inl IndexError)"
  by (simp add: hybrid_astar_planning_def lane_nodes_eval lane_parameters_eval lane_hmap_eval
      lane_start_cost_eval lane_loop_found lane_extract_eval)

text \<open>C2 (code evaluated at the failing input). For the start yaw \<open>2\<pi>\<close> the planner
  builds a start node whose trajectory segment holds \<open>2\<pi>\<close> itself (only the yaw index
  is computed from the wrapped angle), and the first pass of the main loop files that node in
  the closed set: a yaw stored in a search node lies outside \<open>(-\<pi>, \<pi>]\<close>.\<close>

theorem start_yaw_stored_unwrapped:
  "planning_nodes 2 1 (2 * pi) 2 1 0 1 (pi / 12) = Inr (turned_start, lane_goal)
   \<and> hybrid_loop rs_identity lane_para lane_hmap lane_goal
        (hybrid_init turned_start lane_para (Fin 0))
       = Inr (Some (lane_fnode, [(110, turned_start)]))
   \<and> node_yaw turned_start = [2 * pi] \<and> pi < 2 * pi"
proof -
  have k: "calc_index turned_start lane_para = 110"
    by (simp add: calc_index_def turned_start_def lane_para_def)
  define s0 where "s0 = hybrid_init turned_start lane_para (Fin 0)"
  have it: "hybrid_iter rs_identity lane_para lane_hmap lane_goal s0
      = Inr (Found lane_fnode [(110, turned_start)])"
    by (simp add: s0_def hybrid_iter_def hybrid_init_def k qp_put_def qp_get_def
        turned_analytic_eval)
  have ne: "hs_open s0 \<noteq> []" by (simp add: s0_def hybrid_init_def)
  have "hybrid_loop rs_identity lane_para lane_hmap lane_goal s0
      = Inr (Some (lane_fnode, [(110, turned_start)]))"
    by (subst hybrid_loop.simps) (simp add: it ne)
  then have "hybrid_loop rs_identity lane_para lane_hmap lane_goal
        (hybrid_init turned_start lane_para (Fin 0))
       = Inr (Some (lane_fnode, [(110, turned_start)]))" by (simp only: s0_def)
  moreover have "node_yaw turned_start = [2 * pi]" by (simp add: turned_start_def)
  moreover have "pi < 2 * pi" by simp
  ultimately show ?thesis using turned_nodes_eval by simp
qed

text \<open>C4 (code evaluated at the failing input). Start \<open>(2.4, 1, 0)\<close> and goal
  \<open>(2.8, 1, 0)\<close> lie in neighbouring cells of the lane and the Reeds-Shepp generator
  answers with the three-sample segment between them. The analytic expansion succeeds in
  the first pass, so the open set never empties; the planner neither returns \<open>None\<close> nor
  a path but raises IndexError in \<open>extract_path\<close>.\<close>

theorem planning_short_path_raises:
  "hybrid_astar_planning rs_straight (12 / 5) 1 0 (14 / 5) 1 0 [0, 4] [0, 2] 1 (pi / 12) RADIUS
     = Some (Inl IndexError)"
  by (simp add: hybrid_astar_planning_def near_nodes_eval lane_parameters_eval near_hmap_eval
      near_start_cost_eval near_loop_found near_extract_eval)

end
